theory Spec2Isabelle
  imports Complex_Main "HOL-Library.Sublist"
begin

section \<open>Data model of face.js\<close>

text \<open>
  A face is a circular doubly linked list of edges. Edge and Face objects are mutable and
  are shared by reference, so they live in explicit stores indexed by addresses; a
  JavaScript reference is an address, \<open>undefined\<close> is \<open>None\<close>. Every address of
  a store holds an object, as every JavaScript reference points to one.
  Numbers are values of a type \<open>'n\<close> of which the face code uses only \<open>0\<close> and \<open>+\<close>.
\<close>

datatype 'n point = Point 'n 'n

datatype 'n shape =
    Segment "'n point" "'n point"
  | Arc "'n point" 'n 'n 'n bool

datatype orientation = CW | CCW | NOT_ORIENTABLE

datatype error = TypeError

record 'n edge =
  shape :: "'n shape"
  prev :: "nat option"
  next_e :: "nat option"
  face :: "nat option"
  arc_length :: 'n

record 'b face =
  first :: "nat option"
  last_e :: "nat option"
  f_box :: "'b option"
  f_orientation :: "orientation option"

record ('n, 'b, 'ix) world =
  edge_store :: "nat \<Rightarrow> 'n edge"
  face_store :: "nat \<Rightarrow> 'b face"
  planar :: 'ix
  fresh :: nat

text \<open>
  The classes that face.js imports (Point, Segment, Arc, Box, Circle, Utils, PlanarSet) are
  not part of the source file. What the face code calls on them is a parameter of every
  function below: a record of the operations, one field per call. The PlanarSet methods
  \<open>add\<close> and \<open>delete\<close> receive the edge object: its address and its shape.
\<close>

datatype ('n, 'j) elem =
    EPoint "'n point"
  | EShape "'n shape"
  | EObject "string option" 'j
  | ENullish

datatype ('n, 'j, 'c) arg =
    AArray "('n, 'j) elem list"
  | AFace nat
  | ACircle 'c
  | ABox 'n 'n 'n 'n
  | AEdge nat
  | AOther

record ('n, 'b, 'ix, 'j, 'c) collab =
  shape_length :: "'n shape \<Rightarrow> 'n"
  shape_box :: "'n shape \<Rightarrow> 'b"
  shape_start :: "'n shape \<Rightarrow> 'n point"
  shape_end :: "'n shape \<Rightarrow> 'n point"
  definiteIntegral :: "'n shape \<Rightarrow> 'n \<Rightarrow> 'n"
  intersect :: "'n shape \<Rightarrow> 'n shape \<Rightarrow> 'n point list"
  box_new :: 'b
  box_merge :: "'b \<Rightarrow> 'b \<Rightarrow> 'b"
  box_ymin :: "'b \<Rightarrow> 'n"
  EQ_0 :: "'n \<Rightarrow> bool"
  LT :: "'n \<Rightarrow> 'n \<Rightarrow> bool"
  set_add :: "nat \<Rightarrow> 'n shape \<Rightarrow> 'ix \<Rightarrow> 'ix"
  set_delete :: "nat \<Rightarrow> 'n shape \<Rightarrow> 'ix \<Rightarrow> 'ix"
  set_search :: "'ix \<Rightarrow> 'b \<Rightarrow> nat list"
  circle_toArc :: "'c \<Rightarrow> 'n shape"
  new_Segment :: "('n, 'j) elem \<Rightarrow> 'n shape"
  new_Arc :: "('n, 'j) elem \<Rightarrow> 'n shape"
  instance_name :: "('n, 'j) elem \<Rightarrow> string option"

subsection \<open>Reading and writing object fields\<close>

definition shape_of :: "('n, 'b, 'ix) world \<Rightarrow> nat \<Rightarrow> 'n shape" where
  "shape_of w e = shape (edge_store w e)"

definition prev_of :: "('n, 'b, 'ix) world \<Rightarrow> nat \<Rightarrow> nat option" where
  "prev_of w e = prev (edge_store w e)"

definition next_of :: "('n, 'b, 'ix) world \<Rightarrow> nat \<Rightarrow> nat option" where
  "next_of w e = next_e (edge_store w e)"

definition face_of :: "('n, 'b, 'ix) world \<Rightarrow> nat \<Rightarrow> nat option" where
  "face_of w e = face (edge_store w e)"

definition arc_length_of :: "('n, 'b, 'ix) world \<Rightarrow> nat \<Rightarrow> 'n" where
  "arc_length_of w e = arc_length (edge_store w e)"

definition first_of :: "('n, 'b, 'ix) world \<Rightarrow> nat \<Rightarrow> nat option" where
  "first_of w this = first (face_store w this)"

definition last_of :: "('n, 'b, 'ix) world \<Rightarrow> nat \<Rightarrow> nat option" where
  "last_of w this = last_e (face_store w this)"

definition box_cache_of :: "('n, 'b, 'ix) world \<Rightarrow> nat \<Rightarrow> 'b option" where
  "box_cache_of w this = f_box (face_store w this)"

definition orientation_cache_of :: "('n, 'b, 'ix) world \<Rightarrow> nat \<Rightarrow> orientation option" where
  "orientation_cache_of w this = f_orientation (face_store w this)"

definition set_shape :: "nat \<Rightarrow> 'n shape \<Rightarrow> ('n, 'b, 'ix) world \<Rightarrow> ('n, 'b, 'ix) world" where
  "set_shape e v w = w\<lparr>edge_store := (edge_store w)(e := (edge_store w e)\<lparr>shape := v\<rparr>)\<rparr>"

definition set_prev :: "nat \<Rightarrow> nat option \<Rightarrow> ('n, 'b, 'ix) world \<Rightarrow> ('n, 'b, 'ix) world" where
  "set_prev e v w = w\<lparr>edge_store := (edge_store w)(e := (edge_store w e)\<lparr>prev := v\<rparr>)\<rparr>"

definition set_next :: "nat \<Rightarrow> nat option \<Rightarrow> ('n, 'b, 'ix) world \<Rightarrow> ('n, 'b, 'ix) world" where
  "set_next e v w = w\<lparr>edge_store := (edge_store w)(e := (edge_store w e)\<lparr>next_e := v\<rparr>)\<rparr>"

definition set_face :: "nat \<Rightarrow> nat option \<Rightarrow> ('n, 'b, 'ix) world \<Rightarrow> ('n, 'b, 'ix) world" where
  "set_face e v w = w\<lparr>edge_store := (edge_store w)(e := (edge_store w e)\<lparr>face := v\<rparr>)\<rparr>"

definition set_arc_length :: "nat \<Rightarrow> 'n \<Rightarrow> ('n, 'b, 'ix) world \<Rightarrow> ('n, 'b, 'ix) world" where
  "set_arc_length e v w =
     w\<lparr>edge_store := (edge_store w)(e := (edge_store w e)\<lparr>arc_length := v\<rparr>)\<rparr>"

definition set_first :: "nat \<Rightarrow> nat option \<Rightarrow> ('n, 'b, 'ix) world \<Rightarrow> ('n, 'b, 'ix) world" where
  "set_first this v w = w\<lparr>face_store := (face_store w)(this := (face_store w this)\<lparr>first := v\<rparr>)\<rparr>"

definition set_last :: "nat \<Rightarrow> nat option \<Rightarrow> ('n, 'b, 'ix) world \<Rightarrow> ('n, 'b, 'ix) world" where
  "set_last this v w = w\<lparr>face_store := (face_store w)(this := (face_store w this)\<lparr>last_e := v\<rparr>)\<rparr>"

definition set_box_cache :: "nat \<Rightarrow> 'b option \<Rightarrow> ('n, 'b, 'ix) world \<Rightarrow> ('n, 'b, 'ix) world" where
  "set_box_cache this v w =
     w\<lparr>face_store := (face_store w)(this := (face_store w this)\<lparr>f_box := v\<rparr>)\<rparr>"

definition set_orientation_cache ::
    "nat \<Rightarrow> orientation option \<Rightarrow> ('n, 'b, 'ix) world \<Rightarrow> ('n, 'b, 'ix) world" where
  "set_orientation_cache this v w =
     w\<lparr>face_store := (face_store w)(this := (face_store w this)\<lparr>f_orientation := v\<rparr>)\<rparr>"

definition planar_add ::
    "('n, 'b, 'ix, 'j, 'c) collab \<Rightarrow> nat \<Rightarrow> ('n, 'b, 'ix) world \<Rightarrow> ('n, 'b, 'ix) world" where
  "planar_add K e w = w\<lparr>planar := set_add K e (shape_of w e) (planar w)\<rparr>"

definition planar_delete ::
    "('n, 'b, 'ix, 'j, 'c) collab \<Rightarrow> nat \<Rightarrow> ('n, 'b, 'ix) world \<Rightarrow> ('n, 'b, 'ix) world" where
  "planar_delete K e w = w\<lparr>planar := set_delete K e (shape_of w e) (planar w)\<rparr>"

section \<open>The methods of Face\<close>

subsection \<open>The iterator and the for-of loop\<close>

text \<open>
  One call of the iterator's \<open>next()\<close>: the iterator's variable \<open>edge\<close> comes in,
  \<open>(value, done, edge)\<close> comes out.
\<close>

definition iterator_next ::
    "('n, 'b, 'ix) world \<Rightarrow> nat \<Rightarrow> nat option \<Rightarrow> nat option \<times> bool \<times> nat option" where
  "iterator_next w this edge =
     (let value = (case edge of Some e \<Rightarrow> Some e | None \<Rightarrow> first_of w this);
          done = (case first_of w this of
                    Some f \<Rightarrow> (case edge of Some e \<Rightarrow> e = f | None \<Rightarrow> False)
                  | None \<Rightarrow> True);
          edge' = (case value of Some v \<Rightarrow> next_of w v | None \<Rightarrow> None)
      in (value, done, edge'))"

text \<open>
  \<open>for (let edge of this) body\<close>. The loop state \<open>s\<close> holds the world (read by \<open>wof\<close>)
  and the loop's variables; the body returns the new state and whether it executed
  \<open>break\<close>. The loop need not end: the result is \<open>None\<close> when it runs forever.
  The iterator never answers \<open>done = false\<close> with an undefined \<open>value\<close>, so the branch
  for that answer is never taken.
\<close>

partial_function (option) for_of ::
    "('s \<Rightarrow> ('n, 'b, 'ix) world) \<Rightarrow> nat \<Rightarrow> (nat \<Rightarrow> 's \<Rightarrow> error + 's \<times> bool) \<Rightarrow>
     nat option \<Rightarrow> 's \<Rightarrow> (error + 's) option" where
  "for_of wof this body edge s =
     (case iterator_next (wof s) this edge of
        (value, done, edge') \<Rightarrow>
          if done then Some (Inr s)
          else (case value of
                  None \<Rightarrow> Some (Inl TypeError)
                | Some v \<Rightarrow>
                    (case body v s of
                       Inl e \<Rightarrow> Some (Inl e)
                     | Inr (s', brk) \<Rightarrow>
                         if brk then Some (Inr s') else for_of wof this body edge' s')))"

declare for_of.simps [code]

definition bind_res ::
    "(error + 'a) option \<Rightarrow> ('a \<Rightarrow> (error + 'c) option) \<Rightarrow> (error + 'c) option" where
  "bind_res m f = (case m of None \<Rightarrow> None | Some (Inl e) \<Rightarrow> Some (Inl e) | Some (Inr x) \<Rightarrow> f x)"

subsection \<open>size, edges, isEmpty, box\<close>

definition size_f :: "nat \<Rightarrow> ('n, 'b, 'ix) world \<Rightarrow> (error + nat) option" where
  "size_f this w = for_of (\<lambda>_. w) this (\<lambda>edge counter. Inr (counter + 1, False)) None 0"

definition edges :: "nat \<Rightarrow> ('n, 'b, 'ix) world \<Rightarrow> (error + nat list) option" where
  "edges this w =
     for_of (\<lambda>_. w) this (\<lambda>edge face_edges. Inr (face_edges @ [edge], False)) None []"

definition isEmpty :: "nat \<Rightarrow> ('n, 'b, 'ix) world \<Rightarrow> bool" where
  "isEmpty this w \<longleftrightarrow> first_of w this = None \<and> last_of w this = None"

definition box ::
    "('n, 'b, 'ix, 'j, 'c) collab \<Rightarrow> nat \<Rightarrow> ('n, 'b, 'ix) world \<Rightarrow>
     (error + 'b \<times> ('n, 'b, 'ix) world) option" where
  "box K this w =
     (case box_cache_of w this of
        Some b \<Rightarrow> Some (Inr (b, w))
      | None \<Rightarrow>
          bind_res
            (for_of (\<lambda>_. w) this
               (\<lambda>edge b. Inr (box_merge K b (shape_box K (shape_of w edge)), False))
               None (box_new K))
            (\<lambda>b. Some (Inr (b, set_box_cache this (Some b) w))))"

subsection \<open>append, insert, remove\<close>

text \<open>
  The block that links an edge behind \<open>last\<close>. The source has it twice, word for word:
  in \<open>append\<close> (lines 224 to 244) and in the second loop of \<open>reverse\<close> (lines 335 to 355).
\<close>

definition link_edge ::
    "('n::{zero,plus}, 'b, 'ix, 'j, 'c) collab \<Rightarrow> nat \<Rightarrow> nat \<Rightarrow> ('n, 'b, 'ix) world \<Rightarrow>
     error + ('n, 'b, 'ix) world" where
  "link_edge K this edge w =
     (case first_of w this of
        None \<Rightarrow>
          (let w1 = set_prev edge (Some edge) w;
               w2 = set_next edge (Some edge) w1;
               w3 = set_first this (Some edge) w2;
               w4 = set_last this (Some edge) w3
           in Inr (set_arc_length edge 0 w4))
      | Some f \<Rightarrow>
          (case last_of w this of
             None \<Rightarrow> Inl TypeError
           | Some l \<Rightarrow>
               (let w1 = set_prev edge (Some l) w;
                    w2 = set_next l (Some edge) w1;
                    w3 = set_last this (Some edge) w2;
                    w4 = set_next edge (Some f) w3;
                    w5 = set_prev f (Some edge) w4
                in (case prev_of w5 edge of
                      None \<Rightarrow> Inl TypeError
                    | Some p \<Rightarrow>
                        Inr (set_arc_length edge
                               (arc_length_of w5 p + shape_length K (shape_of w5 p)) w5)))))"

definition append ::
    "('n::{zero,plus}, 'b, 'ix, 'j, 'c) collab \<Rightarrow> nat \<Rightarrow> nat \<Rightarrow> ('n, 'b, 'ix) world \<Rightarrow>
     error + ('n, 'b, 'ix) world" where
  "append K this edge w =
     (case link_edge K this edge w of
        Inl x \<Rightarrow> Inl x
      | Inr w' \<Rightarrow> Inr (planar_add K edge (set_face edge (Some this) w')))"

definition insert_f ::
    "('n::{zero,plus}, 'b, 'ix, 'j, 'c) collab \<Rightarrow> nat \<Rightarrow> nat \<Rightarrow> nat \<Rightarrow> ('n, 'b, 'ix) world \<Rightarrow>
     error + ('n, 'b, 'ix) world" where
  "insert_f K this newEdge edgeBefore w =
     (case (case first_of w this of
              None \<Rightarrow>
                (let w1 = set_prev newEdge (Some newEdge) w;
                     w2 = set_next newEdge (Some newEdge) w1;
                     w3 = set_first this (Some newEdge) w2
                 in Inr (set_last this (Some newEdge) w3))
            | Some f \<Rightarrow>
                (case next_of w edgeBefore of
                   None \<Rightarrow> Inl TypeError
                 | Some edgeAfter \<Rightarrow>
                     (let w1 = set_next edgeBefore (Some newEdge) w;
                          w2 = set_prev edgeAfter (Some newEdge) w1;
                          w3 = set_prev newEdge (Some edgeBefore) w2;
                          w4 = set_next newEdge (Some edgeAfter) w3
                      in Inr (if last_of w4 this = Some edgeBefore
                              then set_first this (Some newEdge) w4 else w4)))) of
        Inl x \<Rightarrow> Inl x
      | Inr w5 \<Rightarrow>
          (let w6 = set_face newEdge (Some this) w5
           in (case (if prev_of w6 newEdge = last_of w6 this
                     then Inr (set_arc_length newEdge 0 w6)
                     else (case prev_of w6 newEdge of
                             None \<Rightarrow> Inl TypeError
                           | Some p \<Rightarrow>
                               Inr (set_arc_length newEdge
                                      (arc_length_of w6 p + shape_length K (shape_of w6 p)) w6))) of
                 Inl x \<Rightarrow> Inl x
               | Inr w7 \<Rightarrow> Inr (planar_add K newEdge w7))))"

definition remove_f ::
    "('n, 'b, 'ix, 'j, 'c) collab \<Rightarrow> nat \<Rightarrow> nat \<Rightarrow> ('n, 'b, 'ix) world \<Rightarrow>
     error + ('n, 'b, 'ix) world" where
  "remove_f K this edge w =
     (case (if Some edge = first_of w this \<and> Some edge = last_of w this
            then Inr (set_last this None (set_first this None w))
            else (case prev_of w edge of
                    None \<Rightarrow> Inl TypeError
                  | Some p \<Rightarrow>
                      (let w1 = set_next p (next_of w edge) w
                       in (case next_of w1 edge of
                             None \<Rightarrow> Inl TypeError
                           | Some n \<Rightarrow>
                               (let w2 = set_prev n (prev_of w1 edge) w1;
                                    w3 = (if Some edge = first_of w2 this
                                          then set_first this (next_of w2 edge) w2 else w2);
                                    w4 = (if Some edge = last_of w3 this
                                          then set_last this (prev_of w3 edge) w3 else w3)
                                in Inr w4))))) of
        Inl x \<Rightarrow> Inl x
      | Inr w' \<Rightarrow> Inr (planar_delete K edge w'))"

subsection \<open>setArcLength, signedArea, orientation\<close>

text \<open>The body of the loop of \<open>setArcLength\<close>, for one \<open>edge\<close>; it has no \<open>break\<close>.\<close>

definition setArcLength_body ::
    "('n::{zero,plus}, 'b, 'ix, 'j, 'c) collab \<Rightarrow> nat \<Rightarrow> nat \<Rightarrow> ('n, 'b, 'ix) world \<Rightarrow>
     error + ('n, 'b, 'ix) world \<times> bool" where
  "setArcLength_body K this edge s =
     (case (if Some edge = first_of s this
            then Inr (set_arc_length edge 0 s)
            else (case prev_of s edge of
                    None \<Rightarrow> Inl TypeError
                  | Some p \<Rightarrow>
                      Inr (set_arc_length edge
                             (arc_length_of s p + shape_length K (shape_of s p)) s))) of
        Inl x \<Rightarrow> Inl x
      | Inr s' \<Rightarrow> Inr (set_face edge (Some this) s', False))"

definition setArcLength ::
    "('n::{zero,plus}, 'b, 'ix, 'j, 'c) collab \<Rightarrow> nat \<Rightarrow> ('n, 'b, 'ix) world \<Rightarrow>
     (error + ('n, 'b, 'ix) world) option" where
  "setArcLength K this w = for_of (\<lambda>s. s) this (setArcLength_body K this) None w"

definition signedArea ::
    "('n::{zero,plus}, 'b, 'ix, 'j, 'c) collab \<Rightarrow> nat \<Rightarrow> ('n, 'b, 'ix) world \<Rightarrow>
     (error + 'n \<times> ('n, 'b, 'ix) world) option" where
  "signedArea K this w =
     bind_res (box K this w)
       (\<lambda>(b, w1).
          (let ymin = box_ymin K b
           in bind_res
                (for_of (\<lambda>_. w1) this
                   (\<lambda>edge sArea.
                      Inr (sArea + definiteIntegral K (shape_of w1 edge) ymin, False))
                   None 0)
                (\<lambda>sArea. Some (Inr (sArea, w1)))))"

definition orientation_f ::
    "('n::{zero,plus}, 'b, 'ix, 'j, 'c) collab \<Rightarrow> nat \<Rightarrow> ('n, 'b, 'ix) world \<Rightarrow>
     (error + orientation \<times> ('n, 'b, 'ix) world) option" where
  "orientation_f K this w =
     (case orientation_cache_of w this of
        Some v \<Rightarrow> Some (Inr (v, w))
      | None \<Rightarrow>
          bind_res (signedArea K this w)
            (\<lambda>(area, w1).
               (let v = (if EQ_0 K area then NOT_ORIENTABLE
                         else if LT K area 0 then CCW else CW)
                in Some (Inr (v, set_orientation_cache this (Some v) w1)))))"

subsection \<open>reverse\<close>

text \<open>
  Modelled from the spec: the \<open>reverse()\<close> of a shape, which belongs to the Segment and
  Arc classes; the spec's words are "segment: swap endpoints; arc: swap sweep direction and
  endpoints".
\<close>

fun reverse_shape :: "'n shape \<Rightarrow> 'n shape" where
  "reverse_shape (Segment a b) = Segment b a"
| "reverse_shape (Arc c rad startAngle endAngle ccw) = Arc c rad endAngle startAngle (\<not> ccw)"

text \<open>The do-while loop of \<open>reverse\<close>, entered with \<open>edge_tmp\<close>.\<close>

partial_function (option) reverse_collect ::
    "nat \<Rightarrow> nat option \<Rightarrow> nat list \<Rightarrow> ('n, 'b, 'ix) world \<Rightarrow>
     (error + nat list \<times> ('n, 'b, 'ix) world) option" where
  "reverse_collect this edge_tmp es w =
     (case edge_tmp of
        None \<Rightarrow> Some (Inl TypeError)
      | Some e \<Rightarrow>
          (let w1 = set_shape e (reverse_shape (shape_of w e)) w;
               es1 = es @ [e];
               edge_tmp1 = prev_of w1 e
           in if edge_tmp1 \<noteq> last_of w1 this
              then reverse_collect this edge_tmp1 es1 w1
              else Some (Inr (es1, w1))))"

declare reverse_collect.simps [code]

fun relink ::
    "('n::{zero,plus}, 'b, 'ix, 'j, 'c) collab \<Rightarrow> nat \<Rightarrow> nat list \<Rightarrow> ('n, 'b, 'ix) world \<Rightarrow>
     error + ('n, 'b, 'ix) world" where
  "relink K this [] w = Inr w"
| "relink K this (edge # es) w =
     (case link_edge K this edge w of Inl x \<Rightarrow> Inl x | Inr w' \<Rightarrow> relink K this es w')"

definition reverse ::
    "('n::{zero,plus}, 'b, 'ix, 'j, 'c) collab \<Rightarrow> nat \<Rightarrow> ('n, 'b, 'ix) world \<Rightarrow>
     (error + ('n, 'b, 'ix) world) option" where
  "reverse K this w =
     bind_res (reverse_collect this (last_of w this) [] w)
       (\<lambda>(es, w1).
          (case relink K this es (set_last this None (set_first this None w1)) of
             Inl x \<Rightarrow> Some (Inl x)
           | Inr w2 \<Rightarrow>
               (case orientation_cache_of w2 this of
                  None \<Rightarrow> Some (Inr w2)
                | Some _ \<Rightarrow>
                    bind_res (orientation_f K this (set_orientation_cache this None w2))
                      (\<lambda>(v, w3). Some (Inr (set_orientation_cache this (Some v) w3))))))"

subsection \<open>The constructor\<close>

text \<open>
  Modelled from the spec: \<open>new Edge(shape)\<close>, whose class is not in the source file. The
  spec's edge has a shape, the links \<open>prev\<close> and \<open>next\<close>, the back reference \<open>face\<close> and
  the cached arc length; a new edge is a new object, with no links yet. Its arc length is
  taken as 0 until \<open>append\<close> sets it.
\<close>

definition new_Edge ::
    "'n::zero shape \<Rightarrow> ('n, 'b, 'ix) world \<Rightarrow> nat \<times> ('n, 'b, 'ix) world" where
  "new_Edge s w =
     (fresh w,
      w\<lparr>edge_store := (edge_store w)
           (fresh w := \<lparr>shape = s, prev = None, next_e = None, face = None, arc_length = 0\<rparr>),
        fresh := Suc (fresh w)\<rparr>)"

definition points2segments :: "'n point list \<Rightarrow> 'n shape list" where
  "points2segments points =
     map (\<lambda>i. Segment (points ! i) (points ! ((i + 1) mod length points))) [0..<length points]"

fun shapes2face ::
    "('n::{zero,plus}, 'b, 'ix, 'j, 'c) collab \<Rightarrow> nat \<Rightarrow> 'n shape list \<Rightarrow> ('n, 'b, 'ix) world \<Rightarrow>
     error + ('n, 'b, 'ix) world" where
  "shapes2face K this [] w = Inr w"
| "shapes2face K this (s # shapes) w =
     (case new_Edge s w of
        (edge, w1) \<Rightarrow>
          (case append K this edge w1 of
             Inl x \<Rightarrow> Inl x
           | Inr w2 \<Rightarrow> shapes2face K this shapes w2))"

fun is_Point :: "('n, 'j) elem \<Rightarrow> bool" where
  "is_Point (EPoint p) = True"
| "is_Point _ = False"

fun is_Shape :: "('n, 'j) elem \<Rightarrow> bool" where
  "is_Shape (EShape s) = True"
| "is_Shape _ = False"

fun as_Point :: "('n, 'j) elem \<Rightarrow> 'n point option" where
  "as_Point (EPoint p) = Some p"
| "as_Point _ = None"

fun as_Shape :: "('n, 'j) elem \<Rightarrow> 'n shape option" where
  "as_Shape (EShape s) = Some s"
| "as_Shape _ = None"

text \<open>
  \<open>shape.name\<close>: reading a property of \<open>null\<close> or \<open>undefined\<close> throws a TypeError; a
  plain object carries its name; what an instance of Point, Segment or Arc answers is
  decided by classes outside the source file.
\<close>

fun name_prop :: "('n, 'b, 'ix, 'j, 'c) collab \<Rightarrow> ('n, 'j) elem \<Rightarrow> error + string option" where
  "name_prop K ENullish = Inl TypeError"
| "name_prop K (EObject n j) = Inr n"
| "name_prop K v = Inr (instance_name K v)"

text \<open>
  \<open>shapes.every(shape => shape.name === "segment" || shape.name === "arc")\<close>: stops at the
  first element that fails the test, and throws where the test throws.
\<close>

fun every_named :: "('n, 'b, 'ix, 'j, 'c) collab \<Rightarrow> ('n, 'j) elem list \<Rightarrow> error + bool" where
  "every_named K [] = Inr True"
| "every_named K (v # vs) =
     (case name_prop K v of
        Inl x \<Rightarrow> Inl x
      | Inr n \<Rightarrow> if n = Some ''segment'' \<or> n = Some ''arc'' then every_named K vs else Inr False)"

definition from_record :: "('n, 'b, 'ix, 'j, 'c) collab \<Rightarrow> ('n, 'j) elem \<Rightarrow> 'n shape" where
  "from_record K v =
     (if name_prop K v = Inr (Some ''segment'') then new_Segment K v else new_Arc K v)"

definition new_face :: "'b face" where
  "new_face = \<lparr>first = None, last_e = None, f_box = None, f_orientation = None\<rparr>"

text \<open>The field initialisers at the head of the constructor.\<close>

definition init_face :: "nat \<Rightarrow> ('n, 'b, 'ix) world \<Rightarrow> ('n, 'b, 'ix) world" where
  "init_face this w = w\<lparr>face_store := (face_store w)(this := new_face)\<rparr>"

definition Face_constructor ::
    "('n::{zero,plus}, 'b, 'ix, 'j, 'c) collab \<Rightarrow> nat \<Rightarrow> ('n, 'j, 'c) arg list \<Rightarrow>
     ('n, 'b, 'ix) world \<Rightarrow> (error + ('n, 'b, 'ix) world) option" where
  "Face_constructor K this args w =
     (let w0 = init_face this w
      in (case args of
            [] \<Rightarrow> Some (Inr w0)
          | [AArray shapes] \<Rightarrow>
              if shapes = [] then Some (Inr w0)
              else if list_all is_Point shapes
              then Some (shapes2face K this (points2segments (List.map_filter as_Point shapes)) w0)
              else if list_all is_Shape shapes
              then Some (shapes2face K this (List.map_filter as_Shape shapes) w0)
              else (case every_named K shapes of
                      Inl x \<Rightarrow> Some (Inl x)
                    | Inr True \<Rightarrow> Some (shapes2face K this (map (from_record K) shapes) w0)
                    | Inr False \<Rightarrow> Some (Inr w0))
          | [AFace g] \<Rightarrow>
              (let w1 = set_first this (first_of w0 g) w0;
                   w2 = set_last this (last_of w1 g) w1
               in for_of (\<lambda>s. s) g (\<lambda>edge s. Inr (planar_add K edge s, False)) None w2)
          | [ACircle c] \<Rightarrow> Some (shapes2face K this [circle_toArc K c] w0)
          | [ABox xmin ymin xmax ymax] \<Rightarrow>
              Some (shapes2face K this
                      [Segment (Point xmin ymin) (Point xmax ymin),
                       Segment (Point xmax ymin) (Point xmax ymax),
                       Segment (Point xmax ymax) (Point xmin ymax),
                       Segment (Point xmin ymax) (Point xmin ymin)] w0)
          | [AEdge e1, AEdge e2] \<Rightarrow>
              (let w1 = set_first this (Some e1) w0;
                   w2 = set_last this (Some e2) w1;
                   w3 = set_next e2 (Some e1) w2;
                   w4 = set_prev e1 (Some e2) w3
               in setArcLength K this w4)
          | _ \<Rightarrow> Some (Inr w0)))"

subsection \<open>getSelfIntersections, isSimple\<close>

text \<open>
  Modelled from the spec: \<open>Point.equalTo\<close>, which belongs to the Point class; the spec's
  words are "exact coordinate equality, not tolerance".
\<close>

fun equalTo :: "'n point \<Rightarrow> 'n point \<Rightarrow> bool" where
  "equalTo (Point a b) (Point c d) \<longleftrightarrow> a = c \<and> b = d"

fun is_Segment :: "'n shape \<Rightarrow> bool" where
  "is_Segment (Segment a b) = True"
| "is_Segment _ = False"

text \<open>The loop \<open>for (let pt of ip)\<close>.\<close>

fun points_loop ::
    "('n, 'b, 'ix, 'j, 'c) collab \<Rightarrow> ('n, 'b, 'ix) world \<Rightarrow> nat \<Rightarrow> nat \<Rightarrow> bool \<Rightarrow>
     'n point list \<Rightarrow> 'n point list \<Rightarrow> 'n point list" where
  "points_loop K w edge1 edge2 exitOnFirst [] int_points = int_points"
| "points_loop K w edge1 edge2 exitOnFirst (pt # ip) int_points =
     (if equalTo pt (shape_start K (shape_of w edge1)) \<and>
         equalTo pt (shape_end K (shape_of w edge2)) \<and> Some edge2 = prev_of w edge1
      then points_loop K w edge1 edge2 exitOnFirst ip int_points
      else if equalTo pt (shape_end K (shape_of w edge1)) \<and>
              equalTo pt (shape_start K (shape_of w edge2)) \<and> Some edge2 = next_of w edge1
      then points_loop K w edge1 edge2 exitOnFirst ip int_points
      else if exitOnFirst then int_points @ [pt]
      else points_loop K w edge1 edge2 exitOnFirst ip (int_points @ [pt]))"

text \<open>
  The loop \<open>for (let edge2 of resp)\<close>. Its state is \<open>int_points\<close> and the trace of the
  calls \<open>edge1.shape.intersect(edge2.shape)\<close> made so far, as pairs \<open>(edge1, edge2)\<close>.
\<close>

fun candidates_loop ::
    "('n, 'b, 'ix, 'j, 'c) collab \<Rightarrow> ('n, 'b, 'ix) world \<Rightarrow> nat \<Rightarrow> bool \<Rightarrow> nat list \<Rightarrow>
     'n point list \<times> (nat \<times> nat) list \<Rightarrow> 'n point list \<times> (nat \<times> nat) list" where
  "candidates_loop K w edge1 exitOnFirst [] st = st"
| "candidates_loop K w edge1 exitOnFirst (edge2 # resp) (int_points, calls) =
     (if edge1 = edge2 then candidates_loop K w edge1 exitOnFirst resp (int_points, calls)
      else if is_Segment (shape_of w edge1) \<and> is_Segment (shape_of w edge2) \<and>
              (next_of w edge1 = Some edge2 \<or> prev_of w edge1 = Some edge2)
      then candidates_loop K w edge1 exitOnFirst resp (int_points, calls)
      else (let ip = intersect K (shape_of w edge1) (shape_of w edge2);
                calls1 = calls @ [(edge1, edge2)];
                int_points1 = points_loop K w edge1 edge2 exitOnFirst ip int_points
            in if int_points1 \<noteq> [] \<and> exitOnFirst then (int_points1, calls1)
               else candidates_loop K w edge1 exitOnFirst resp (int_points1, calls1)))"

text \<open>The body of the loop \<open>for (let edge1 of face)\<close>.\<close>

definition getSelfIntersections_body ::
    "('n, 'b, 'ix, 'j, 'c) collab \<Rightarrow> ('n, 'b, 'ix) world \<Rightarrow> bool \<Rightarrow> nat \<Rightarrow>
     'n point list \<times> (nat \<times> nat) list \<Rightarrow>
     error + ('n point list \<times> (nat \<times> nat) list) \<times> bool" where
  "getSelfIntersections_body K w exitOnFirst edge1 st =
     (let resp = set_search K (planar w) (shape_box K (shape_of w edge1));
          st1 = candidates_loop K w edge1 exitOnFirst resp st
      in Inr (st1, fst st1 \<noteq> [] \<and> exitOnFirst))"

definition getSelfIntersections ::
    "('n, 'b, 'ix, 'j, 'c) collab \<Rightarrow> nat \<Rightarrow> bool \<Rightarrow> ('n, 'b, 'ix) world \<Rightarrow>
     (error + 'n point list \<times> (nat \<times> nat) list) option" where
  "getSelfIntersections K fc exitOnFirst w =
     for_of (\<lambda>_. w) fc (getSelfIntersections_body K w exitOnFirst) None ([], [])"

definition isSimple ::
    "('n, 'b, 'ix, 'j, 'c) collab \<Rightarrow> nat \<Rightarrow> ('n, 'b, 'ix) world \<Rightarrow> (error + bool) option" where
  "isSimple K this w =
     bind_res (getSelfIntersections K this True w) (\<lambda>(ip, calls). Some (Inr (ip = [])))"

section \<open>Invariants, the claims' vocabulary and examples\<close>

text \<open>
  The invariant of a face that is not empty. \<open>chain h es\<close>: the link \<open>h\<close> leads from
  every element of \<open>es\<close> to the next one. \<open>loop_of w this es\<close>: the edges of the face \<open>this\<close>,
  from \<open>first\<close> to \<open>last\<close>, are the distinct edges \<open>es\<close>; \<open>next\<close> leads along \<open>es\<close> and
  from \<open>last\<close> back to \<open>first\<close>; \<open>prev\<close> leads along \<open>es\<close> backwards and from \<open>first\<close>
  back to \<open>last\<close>.
\<close>

fun chain :: "(nat \<Rightarrow> nat option) \<Rightarrow> nat list \<Rightarrow> bool" where
  "chain h (a # b # xs) \<longleftrightarrow> h a = Some b \<and> chain h (b # xs)"
| "chain h xs \<longleftrightarrow> True"

definition loop_of :: "('n, 'b, 'ix) world \<Rightarrow> nat \<Rightarrow> nat list \<Rightarrow> bool" where
  "loop_of w this es \<longleftrightarrow>
     es \<noteq> [] \<and> distinct es \<and>
     first_of w this = Some (hd es) \<and> last_of w this = Some (last es) \<and>
     chain (next_of w) es \<and> next_of w (last es) = Some (hd es) \<and>
     chain (prev_of w) (rev es) \<and> prev_of w (hd es) = Some (last es)"

text \<open>
  A loop body run over a list of edges, with its \<open>break\<close> and its errors; and \<open>n\<close> steps
  along \<open>next\<close>.
\<close>

fun fold_break :: "(nat \<Rightarrow> 's \<Rightarrow> error + 's \<times> bool) \<Rightarrow> nat list \<Rightarrow> 's \<Rightarrow> error + 's" where
  "fold_break body [] s = Inr s"
| "fold_break body (v # vs) s =
     (case body v s of
        Inl x \<Rightarrow> Inl x
      | Inr (s', brk) \<Rightarrow> if brk then Inr s' else fold_break body vs s')"

fun follow :: "('n, 'b, 'ix) world \<Rightarrow> nat \<Rightarrow> nat \<Rightarrow> nat option" where
  "follow w 0 e = Some e"
| "follow w (Suc n) e = (case next_of w e of None \<Rightarrow> None | Some e' \<Rightarrow> follow w n e')"

fun back_chain :: "(nat \<Rightarrow> nat option) \<Rightarrow> nat list \<Rightarrow> bool" where
  "back_chain h (a # b # xs) \<longleftrightarrow> h b = Some a \<and> back_chain h (b # xs)"
| "back_chain h xs \<longleftrightarrow> True"

text \<open>
  The arc-length law along a list of edges: each edge starts where its predecessor ends.
\<close>

fun arc_law ::
    "('n::{zero,plus}, 'b, 'ix, 'j, 'c) collab \<Rightarrow> ('n, 'b, 'ix) world \<Rightarrow> nat list \<Rightarrow> bool" where
  "arc_law K w (a # b # xs) \<longleftrightarrow>
     arc_length_of w b = arc_length_of w a + shape_length K (shape_of w a) \<and> arc_law K w (b # xs)"
| "arc_law K w xs \<longleftrightarrow> True"

text \<open>A face whose traversal from \<open>first\<close> is the list \<open>es\<close>: empty, or a loop.\<close>

definition traversal :: "('n, 'b, 'ix) world \<Rightarrow> nat \<Rightarrow> nat list \<Rightarrow> bool" where
  "traversal w this es \<longleftrightarrow> (es = [] \<and> first_of w this = None) \<or> loop_of w this es"

text \<open>The world in which the shapes of the listed edges have been replaced by their reversals.\<close>

fun reverse_all :: "nat list \<Rightarrow> ('n, 'b, 'ix) world \<Rightarrow> ('n, 'b, 'ix) world" where
  "reverse_all [] w = w"
| "reverse_all (e # es) w = reverse_all es (set_shape e (reverse_shape (shape_of w e)) w)"

text \<open>The union of the boxes of the listed edges, and the sum of their line integrals.\<close>

definition box_union ::
    "('n, 'b, 'ix, 'j, 'c) collab \<Rightarrow> ('n, 'b, 'ix) world \<Rightarrow> nat list \<Rightarrow> 'b" where
  "box_union K w es = foldl (\<lambda>b e. box_merge K b (shape_box K (shape_of w e))) (box_new K) es"

definition integral_sum ::
    "('n::{zero,plus}, 'b, 'ix, 'j, 'c) collab \<Rightarrow> ('n, 'b, 'ix) world \<Rightarrow> 'n \<Rightarrow> nat list \<Rightarrow> 'n" where
  "integral_sum K w ymin es = foldl (\<lambda>a e. a + definiteIntegral K (shape_of w e) ymin) 0 es"

text \<open>
  What the getter \<open>box\<close> answers on a face with the traversal \<open>es\<close>, the world it
  leaves, and the sum that \<open>signedArea\<close> forms.
\<close>

definition face_box ::
    "('n, 'b, 'ix, 'j, 'c) collab \<Rightarrow> ('n, 'b, 'ix) world \<Rightarrow> nat \<Rightarrow> nat list \<Rightarrow> 'b" where
  "face_box K w this es =
     (case box_cache_of w this of Some b \<Rightarrow> b | None \<Rightarrow> box_union K w es)"

definition cache_box ::
    "('n, 'b, 'ix, 'j, 'c) collab \<Rightarrow> ('n, 'b, 'ix) world \<Rightarrow> nat \<Rightarrow> nat list \<Rightarrow>
     ('n, 'b, 'ix) world" where
  "cache_box K w this es =
     (case box_cache_of w this of
        Some b \<Rightarrow> w
      | None \<Rightarrow> set_box_cache this (Some (box_union K w es)) w)"

definition face_area ::
    "('n::{zero,plus}, 'b, 'ix, 'j, 'c) collab \<Rightarrow> ('n, 'b, 'ix) world \<Rightarrow> nat \<Rightarrow> nat list \<Rightarrow> 'n" where
  "face_area K w this es = integral_sum K w (box_ymin K (face_box K w this es)) es"

text \<open>
  The classification in the words of the spec: a value within tolerance of zero is not
  orientable, a value below zero by more than the tolerance is counter-clockwise, any other
  value is clockwise.
\<close>

definition sign_class :: "('n::{zero,plus}, 'b, 'ix, 'j, 'c) collab \<Rightarrow> 'n \<Rightarrow> orientation" where
  "sign_class K area =
     (if EQ_0 K area then NOT_ORIENTABLE else if LT K area 0 then CCW else CW)"

text \<open>
  A recognized serialized shape record, by the test of the constructor: its \<open>name\<close> is
  "segment" or "arc". The test is made from left to right and stops at the first element
  that fails it; it reaches a null or undefined element when all elements before are
  recognized records.
\<close>

definition recognized :: "('n, 'b, 'ix, 'j, 'c) collab \<Rightarrow> ('n, 'j) elem \<Rightarrow> bool" where
  "recognized K v \<longleftrightarrow>
     name_prop K v = Inr (Some ''segment'') \<or> name_prop K v = Inr (Some ''arc'')"

definition reaches_nullish :: "('n, 'b, 'ix, 'j, 'c) collab \<Rightarrow> ('n, 'j) elem list \<Rightarrow> bool" where
  "reaches_nullish K vs \<longleftrightarrow>
     (case dropWhile (recognized K) vs of ENullish # rest \<Rightarrow> True | _ \<Rightarrow> False)"

text \<open>What \<open>orientation()\<close> answers on the face that the constructor has made.\<close>

definition constructed_orientation ::
    "('n::{zero,plus}, 'b, 'ix, 'j, 'c) collab \<Rightarrow> nat \<Rightarrow> ('n, 'j, 'c) arg list \<Rightarrow>
     ('n, 'b, 'ix) world \<Rightarrow> (error + orientation) option" where
  "constructed_orientation K this args w =
     bind_res (Face_constructor K this args w)
       (\<lambda>w'. bind_res (orientation_f K this w') (\<lambda>(v, w''). Some (Inr v)))"

text \<open>
  The vocabulary of the self-intersection scan, in the words of the spec. A candidate
  \<open>e2\<close> of \<open>e1\<close> is skipped when it is \<open>e1\<close> itself, or its predecessor or successor
  with both shapes straight segments. A point is a joint of \<open>e1\<close> and \<open>e2\<close> when \<open>e2\<close>
  is the predecessor of \<open>e1\<close> and the point equals the start of \<open>e1\<close> and the end of
  \<open>e2\<close>, or \<open>e2\<close> is the successor and the point equals the end of \<open>e1\<close> and the start
  of \<open>e2\<close>.
\<close>

definition skipped :: "('n, 'b, 'ix) world \<Rightarrow> nat \<Rightarrow> nat \<Rightarrow> bool" where
  "skipped w e1 e2 \<longleftrightarrow>
     e2 = e1 \<or>
     ((prev_of w e1 = Some e2 \<or> next_of w e1 = Some e2) \<and>
      is_Segment (shape_of w e1) \<and> is_Segment (shape_of w e2))"

definition joint ::
    "('n, 'b, 'ix, 'j, 'c) collab \<Rightarrow> ('n, 'b, 'ix) world \<Rightarrow> nat \<Rightarrow> nat \<Rightarrow> 'n point \<Rightarrow> bool" where
  "joint K w e1 e2 pt \<longleftrightarrow>
     (prev_of w e1 = Some e2 \<and> equalTo pt (shape_start K (shape_of w e1)) \<and>
      equalTo pt (shape_end K (shape_of w e2))) \<or>
     (next_of w e1 = Some e2 \<and> equalTo pt (shape_end K (shape_of w e1)) \<and>
      equalTo pt (shape_start K (shape_of w e2)))"

text \<open>
  The pairs \<open>(e1, e2)\<close> in the order of the scan: every edge of the face with every
  candidate that the index returns for its box; those of them that are not skipped; the
  intersection points of a pair that are not joints; and all of these points in order.
\<close>

definition candidates ::
    "('n, 'b, 'ix, 'j, 'c) collab \<Rightarrow> ('n, 'b, 'ix) world \<Rightarrow> nat list \<Rightarrow> (nat \<times> nat) list" where
  "candidates K w es =
     concat (map (\<lambda>e1. map (Pair e1) (set_search K (planar w) (shape_box K (shape_of w e1)))) es)"

definition computed ::
    "('n, 'b, 'ix, 'j, 'c) collab \<Rightarrow> ('n, 'b, 'ix) world \<Rightarrow> nat list \<Rightarrow> (nat \<times> nat) list" where
  "computed K w es = filter (\<lambda>p. \<not> skipped w (fst p) (snd p)) (candidates K w es)"

definition kept ::
    "('n, 'b, 'ix, 'j, 'c) collab \<Rightarrow> ('n, 'b, 'ix) world \<Rightarrow> nat \<times> nat \<Rightarrow> 'n point list" where
  "kept K w p =
     filter (\<lambda>pt. \<not> joint K w (fst p) (snd p) pt)
       (intersect K (shape_of w (fst p)) (shape_of w (snd p)))"

definition self_points ::
    "('n, 'b, 'ix, 'j, 'c) collab \<Rightarrow> ('n, 'b, 'ix) world \<Rightarrow> nat list \<Rightarrow> 'n point list" where
  "self_points K w es = concat (map (kept K w) (computed K w es))"

text \<open>A list up to and including its first element that hits.\<close>

fun until_hit :: "('a \<Rightarrow> bool) \<Rightarrow> 'a list \<Rightarrow> 'a list" where
  "until_hit hit [] = []"
| "until_hit hit (p # ps) = (if hit p then [p] else p # until_hit hit ps)"

text \<open>
  An edge belongs to a face when the traversal of the face from \<open>first\<close> meets it. A face is
  well formed when its traversal ends and it is empty or a loop. It is circular when
  following \<open>next\<close> from \<open>first\<close> exactly \<open>size()\<close> times returns to \<open>first\<close>,
  \<open>first.prev\<close> is \<open>last\<close> and \<open>last.next\<close> is \<open>first\<close>.
\<close>

definition in_face :: "('n, 'b, 'ix) world \<Rightarrow> nat \<Rightarrow> nat \<Rightarrow> bool" where
  "in_face w this e \<longleftrightarrow> (case edges this w of Some (Inr es) \<Rightarrow> e \<in> set es | _ \<Rightarrow> False)"

definition well_formed :: "('n, 'b, 'ix) world \<Rightarrow> nat \<Rightarrow> bool" where
  "well_formed w this \<longleftrightarrow>
     (case edges this w of
        Some (Inr es) \<Rightarrow> if es = [] then isEmpty this w else loop_of w this es
      | _ \<Rightarrow> False)"

definition circular :: "('n, 'b, 'ix) world \<Rightarrow> nat \<Rightarrow> bool" where
  "circular w this \<longleftrightarrow>
     (case (size_f this w, first_of w this, last_of w this) of
        (Some (Inr n), Some f, Some l) \<Rightarrow>
          follow w n f = Some f \<and> prev_of w f = Some l \<and> next_of w l = Some f
      | _ \<Rightarrow> False)"

text \<open>
  Sequences of \<open>append(edge)\<close>, \<open>insert(newEdge, edgeBefore)\<close> and \<open>remove(edge)\<close> on one
  face, run until a call throws. A call is allowed when an appended or inserted edge is not
  in the face at that moment and \<open>edgeBefore\<close> and a removed edge are; it is unguarded
  when only the \<open>edgeBefore\<close> of an insert is asked to be in the face.
  \<open>circular_after\<close> runs a sequence and tells whether the face is empty and whether it is
  circular at the end.
\<close>

datatype mutation = Append nat | Insert nat nat | Remove nat

fun mutate ::
    "('n::{zero,plus}, 'b, 'ix, 'j, 'c) collab \<Rightarrow> nat \<Rightarrow> mutation \<Rightarrow> ('n, 'b, 'ix) world \<Rightarrow>
     error + ('n, 'b, 'ix) world" where
  "mutate K this (Append e) w = append K this e w"
| "mutate K this (Insert n b) w = insert_f K this n b w"
| "mutate K this (Remove e) w = remove_f K this e w"

fun mutations ::
    "('n::{zero,plus}, 'b, 'ix, 'j, 'c) collab \<Rightarrow> nat \<Rightarrow> mutation list \<Rightarrow> ('n, 'b, 'ix) world \<Rightarrow>
     error + ('n, 'b, 'ix) world" where
  "mutations K this [] w = Inr w"
| "mutations K this (m # ms) w =
     (case mutate K this m w of Inl x \<Rightarrow> Inl x | Inr w' \<Rightarrow> mutations K this ms w')"

fun allowed :: "('n, 'b, 'ix) world \<Rightarrow> nat \<Rightarrow> mutation \<Rightarrow> bool" where
  "allowed w this (Append e) \<longleftrightarrow> \<not> in_face w this e"
| "allowed w this (Insert n b) \<longleftrightarrow> in_face w this b \<and> \<not> in_face w this n"
| "allowed w this (Remove e) \<longleftrightarrow> in_face w this e"

fun all_allowed ::
    "('n::{zero,plus}, 'b, 'ix, 'j, 'c) collab \<Rightarrow> nat \<Rightarrow> mutation list \<Rightarrow> ('n, 'b, 'ix) world \<Rightarrow>
     bool" where
  "all_allowed K this [] w \<longleftrightarrow> True"
| "all_allowed K this (m # ms) w \<longleftrightarrow>
     allowed w this m \<and>
     (case mutate K this m w of Inl x \<Rightarrow> True | Inr w' \<Rightarrow> all_allowed K this ms w')"

fun unguarded :: "('n, 'b, 'ix) world \<Rightarrow> nat \<Rightarrow> mutation \<Rightarrow> bool" where
  "unguarded w this (Insert n b) \<longleftrightarrow> in_face w this b"
| "unguarded w this m \<longleftrightarrow> True"

fun all_unguarded ::
    "('n::{zero,plus}, 'b, 'ix, 'j, 'c) collab \<Rightarrow> nat \<Rightarrow> mutation list \<Rightarrow> ('n, 'b, 'ix) world \<Rightarrow>
     bool" where
  "all_unguarded K this [] w \<longleftrightarrow> True"
| "all_unguarded K this (m # ms) w \<longleftrightarrow>
     unguarded w this m \<and>
     (case mutate K this m w of Inl x \<Rightarrow> True | Inr w' \<Rightarrow> all_unguarded K this ms w')"

definition circular_after ::
    "('n::{zero,plus}, 'b, 'ix, 'j, 'c) collab \<Rightarrow> nat \<Rightarrow> mutation list \<Rightarrow> ('n, 'b, 'ix) world \<Rightarrow>
     (bool \<times> bool) option" where
  "circular_after K this ms w =
     (case mutations K this ms w of
        Inl x \<Rightarrow> None
      | Inr w' \<Rightarrow> Some (isEmpty this w', circular w' this))"

subsection \<open>Collaborators on straight segments\<close>

text \<open>
  Modelled from the spec: the Box, Segment and Utils operations that the face code calls,
  on straight segments. A box is the union of bounding boxes and \<open>new Box()\<close> has no extent
  yet; the definite line integral of a segment is taken relative to the ordinate \<open>ymin\<close>
  (the area between the segment and the line \<open>y = ymin\<close>, signed by the direction in \<open>x\<close>);
  \<open>EQ_0\<close> and \<open>LT\<close> compare within the tolerance \<open>tol\<close>. The PlanarSet keeps the edges
  with their shapes and answers a search with the edges whose box meets the query box.
  Arcs, circles and serialized records are outside this model: on them the fields below
  answer with fixed values, and nothing below is stated about those answers.
\<close>

datatype 'n box = Box 'n 'n 'n 'n

fun segment_box :: "'n::linorder shape \<Rightarrow> 'n box option" where
  "segment_box (Segment (Point x1 y1) (Point x2 y2)) =
     Some (Box (min x1 x2) (min y1 y2) (max x1 x2) (max y1 y2))"
| "segment_box (Arc c rad sa ea ccw) = None"

fun merge :: "'n::linorder box option \<Rightarrow> 'n box option \<Rightarrow> 'n box option" where
  "merge None b = b"
| "merge a None = a"
| "merge (Some (Box a1 b1 c1 d1)) (Some (Box a2 b2 c2 d2)) =
     Some (Box (min a1 a2) (min b1 b2) (max c1 c2) (max d1 d2))"

fun ymin_of :: "'n::zero box option \<Rightarrow> 'n" where
  "ymin_of (Some (Box a b c d)) = b"
| "ymin_of None = 0"

fun meets :: "'n::linorder box option \<Rightarrow> 'n box option \<Rightarrow> bool" where
  "meets (Some (Box a1 b1 c1 d1)) (Some (Box a2 b2 c2 d2)) \<longleftrightarrow>
     \<not> (c1 < a2 \<or> c2 < a1 \<or> d1 < b2 \<or> d2 < b1)"
| "meets a b \<longleftrightarrow> False"

fun segment_integral :: "'n::field shape \<Rightarrow> 'n \<Rightarrow> 'n" where
  "segment_integral (Segment (Point x1 y1) (Point x2 y2)) ymin =
     (x2 - x1) * ((y1 - ymin) + (y2 - ymin)) / 2"
| "segment_integral (Arc c rad sa ea ccw) ymin = 0"

fun segment_start :: "'n shape \<Rightarrow> 'n point" where
  "segment_start (Segment p q) = p"
| "segment_start (Arc c rad sa ea ccw) = c"

fun segment_end :: "'n shape \<Rightarrow> 'n point" where
  "segment_end (Segment p q) = q"
| "segment_end (Arc c rad sa ea ccw) = c"

text \<open>
  The common point of two segments that are not parallel, when they have one.
\<close>

fun segment_intersect :: "'n::linordered_field shape \<Rightarrow> 'n shape \<Rightarrow> 'n point list" where
  "segment_intersect (Segment (Point x1 y1) (Point x2 y2)) (Segment (Point x3 y3) (Point x4 y4)) =
     (let d = (x2 - x1) * (y4 - y3) - (y2 - y1) * (x4 - x3)
      in if d = 0 then []
         else (let t = ((x3 - x1) * (y4 - y3) - (y3 - y1) * (x4 - x3)) / d;
                   u = ((x3 - x1) * (y2 - y1) - (y3 - y1) * (x2 - x1)) / d
               in if 0 \<le> t \<and> t \<le> 1 \<and> 0 \<le> u \<and> u \<le> 1
                  then [Point (x1 + t * (x2 - x1)) (y1 + t * (y2 - y1))] else []))"
| "segment_intersect s t = []"

definition segment_collab ::
    "'n::linordered_field \<Rightarrow> ('n shape \<Rightarrow> 'n) \<Rightarrow>
     ('n, 'n box option, (nat \<times> 'n shape) list, unit, unit) collab" where
  "segment_collab tol len =
     \<lparr>shape_length = len,
      shape_box = segment_box,
      shape_start = segment_start,
      shape_end = segment_end,
      definiteIntegral = segment_integral,
      intersect = segment_intersect,
      box_new = None,
      box_merge = merge,
      box_ymin = ymin_of,
      EQ_0 = (\<lambda>x. \<bar>x\<bar> < tol),
      LT = (\<lambda>x y. x - y < - tol),
      set_add = (\<lambda>e s ix. if e \<in> fst ` set ix then ix else ix @ [(e, s)]),
      set_delete = (\<lambda>e s ix. filter (\<lambda>p. fst p \<noteq> e) ix),
      set_search = (\<lambda>ix b. map fst (filter (\<lambda>p. meets (segment_box (snd p)) b) ix)),
      circle_toArc = (\<lambda>c. Arc (Point 0 0) 0 0 0 True),
      new_Segment = (\<lambda>v. Segment (Point 0 0) (Point 0 0)),
      new_Arc = (\<lambda>v. Arc (Point 0 0) 0 0 0 True),
      instance_name = (\<lambda>v. None)\<rparr>"

text \<open>
  What a collaborator must answer on straight segments to follow that model.
\<close>

definition segment_model ::
    "('n::linordered_field, 'n box option, 'ix, 'j, 'c) collab \<Rightarrow> 'n \<Rightarrow> bool" where
  "segment_model K tol \<longleftrightarrow>
     (\<forall>p q. shape_box K (Segment p q) = segment_box (Segment p q)) \<and>
     (\<forall>p q y. definiteIntegral K (Segment p q) y = segment_integral (Segment p q) y) \<and>
     box_new K = None \<and> box_merge K = merge \<and> box_ymin K = ymin_of \<and>
     (\<forall>x. EQ_0 K x \<longleftrightarrow> \<bar>x\<bar> < tol) \<and> (\<forall>x y. LT K x y \<longleftrightarrow> x - y < - tol)"

subsection \<open>Worlds for the examples\<close>

definition axis_length :: "rat shape \<Rightarrow> rat" where
  "axis_length s =
     (case s of
        Segment (Point x1 y1) (Point x2 y2) \<Rightarrow> \<bar>x2 - x1\<bar> + \<bar>y2 - y1\<bar>
      | Arc c rad sa ea ccw \<Rightarrow> 0)"

definition K0 :: "(rat, rat box option, (nat \<times> rat shape) list, unit, unit) collab" where
  "K0 = segment_collab (1 / 1000000) axis_length"

definition empty_world :: "(rat, rat box option, (nat \<times> rat shape) list) world" where
  "empty_world =
     \<lparr>edge_store = (\<lambda>e. \<lparr>shape = Segment (Point 0 0) (Point 0 0), prev = None, next_e = None,
                           face = None, arc_length = 0\<rparr>),
      face_store = (\<lambda>t. new_face),
      planar = [],
      fresh = 0\<rparr>"

text \<open>
  The examples are over the rationals, with the tolerance \<open>1/1000000\<close> and a length that
  is the true one on segments parallel to an axis. \<open>made\<close> is the world after the
  constructor; \<open>rectangle\<close> has the edges 0 to 3 of the box from (0,0) to (2,3), \<open>spare\<close>
  one more edge object, 4, of length 1, \<open>stale\<close> is \<open>spare\<close> after edge 4 was inserted
  after edge 1, \<open>oriented\<close> is \<open>rectangle\<close> after a call of \<open>orientation()\<close>, and \<open>bowtie\<close>
  is the face of the segments (0,0)-(1,1), (1,1)-(1,0), (1,0)-(0,1), (0,1)-(0,0).
\<close>

definition made ::
    "('n::{zero,plus}, 'b, 'ix, 'j, 'c) collab \<Rightarrow> nat \<Rightarrow> ('n, 'j, 'c) arg list \<Rightarrow>
     ('n, 'b, 'ix) world \<Rightarrow> ('n, 'b, 'ix) world" where
  "made K this args w = (case Face_constructor K this args w of Some (Inr w') \<Rightarrow> w' | _ \<Rightarrow> w)"

definition rectangle :: "(rat, rat box option, (nat \<times> rat shape) list) world" where
  "rectangle = made K0 0 [ABox 0 0 2 3] empty_world"

definition spare :: "(rat, rat box option, (nat \<times> rat shape) list) world" where
  "spare = snd (new_Edge (Segment (Point 0 0) (Point 1 0)) rectangle)"

definition stale :: "(rat, rat box option, (nat \<times> rat shape) list) world" where
  "stale = (case insert_f K0 0 4 1 spare of Inr w \<Rightarrow> w | Inl x \<Rightarrow> spare)"

definition oriented :: "(rat, rat box option, (nat \<times> rat shape) list) world" where
  "oriented = (case orientation_f K0 0 rectangle of Some (Inr (v, u)) \<Rightarrow> u | _ \<Rightarrow> rectangle)"

definition bowtie :: "(rat, rat box option, (nat \<times> rat shape) list) world" where
  "bowtie =
     made K0 0
       [AArray [EShape (Segment (Point 0 0) (Point 1 1)), EShape (Segment (Point 1 1) (Point 1 0)),
                EShape (Segment (Point 1 0) (Point 0 1)), EShape (Segment (Point 0 1) (Point 0 0))]]
       empty_world"

text \<open>
  A half disc: the chord from (-1,0) to (1,0) and the arc of the unit circle from (1,0) over
  (0,1) back to (-1,0) (the end angle stands for \<open>\<pi>\<close>; nothing reads it). \<open>K1\<close> answers
  for this arc: its box, its end points, and its common points with the chord, which are
  the two joints. Its index returns every edge it holds.
\<close>

definition half_arc :: "rat shape" where
  "half_arc = Arc (Point 0 0) 1 0 (22 / 7) True"

definition K1 :: "(rat, rat box option, (nat \<times> rat shape) list, unit, unit) collab" where
  "K1 = K0\<lparr>shape_box := (\<lambda>s. if is_Segment s then segment_box s else Some (Box (- 1) 0 1 1)),
           shape_start := (\<lambda>s. if is_Segment s then segment_start s else Point 1 0),
           shape_end := (\<lambda>s. if is_Segment s then segment_end s else Point (- 1) 0),
           intersect := (\<lambda>s t. if is_Segment s \<and> is_Segment t then segment_intersect s t
                                else [Point (- 1) 0, Point 1 0]),
           set_search := (\<lambda>ix b. map fst ix)\<rparr>"

definition half_disc :: "(rat, rat box option, (nat \<times> rat shape) list) world" where
  "half_disc =
     made K1 0 [AArray [EShape (Segment (Point (- 1) 0) (Point 1 0)), EShape half_arc]] empty_world"

section \<open>Properties\<close>

subsection \<open>Field access\<close>

lemma field_access [simp]:
  "shape_of (set_shape e v0 w0) = (shape_of w0)(e := v0)"
  "shape_of (set_prev e v1 w1) = shape_of w1"
  "shape_of (set_next e v2 w2) = shape_of w2"
  "shape_of (set_face e v3 w3) = shape_of w3"
  "shape_of (set_arc_length e v4 w4) = shape_of w4"
  "shape_of (set_first t v5 w5) = shape_of w5"
  "shape_of (set_last t v6 w6) = shape_of w6"
  "shape_of (set_box_cache t v7 w7) = shape_of w7"
  "shape_of (set_orientation_cache t v8 w8) = shape_of w8"
  "shape_of (planar_add K9 e w9) = shape_of w9"
  "shape_of (planar_delete K10 e w10) = shape_of w10"
  "prev_of (set_shape e v11 w11) = prev_of w11"
  "prev_of (set_prev e v12 w12) = (prev_of w12)(e := v12)"
  "prev_of (set_next e v13 w13) = prev_of w13"
  "prev_of (set_face e v14 w14) = prev_of w14"
  "prev_of (set_arc_length e v15 w15) = prev_of w15"
  "prev_of (set_first t v16 w16) = prev_of w16"
  "prev_of (set_last t v17 w17) = prev_of w17"
  "prev_of (set_box_cache t v18 w18) = prev_of w18"
  "prev_of (set_orientation_cache t v19 w19) = prev_of w19"
  "prev_of (planar_add K20 e w20) = prev_of w20"
  "prev_of (planar_delete K21 e w21) = prev_of w21"
  "next_of (set_shape e v22 w22) = next_of w22"
  "next_of (set_prev e v23 w23) = next_of w23"
  "next_of (set_next e v24 w24) = (next_of w24)(e := v24)"
  "next_of (set_face e v25 w25) = next_of w25"
  "next_of (set_arc_length e v26 w26) = next_of w26"
  "next_of (set_first t v27 w27) = next_of w27"
  "next_of (set_last t v28 w28) = next_of w28"
  "next_of (set_box_cache t v29 w29) = next_of w29"
  "next_of (set_orientation_cache t v30 w30) = next_of w30"
  "next_of (planar_add K31 e w31) = next_of w31"
  "next_of (planar_delete K32 e w32) = next_of w32"
  "face_of (set_shape e v33 w33) = face_of w33"
  "face_of (set_prev e v34 w34) = face_of w34"
  "face_of (set_next e v35 w35) = face_of w35"
  "face_of (set_face e v36 w36) = (face_of w36)(e := v36)"
  "face_of (set_arc_length e v37 w37) = face_of w37"
  "face_of (set_first t v38 w38) = face_of w38"
  "face_of (set_last t v39 w39) = face_of w39"
  "face_of (set_box_cache t v40 w40) = face_of w40"
  "face_of (set_orientation_cache t v41 w41) = face_of w41"
  "face_of (planar_add K42 e w42) = face_of w42"
  "face_of (planar_delete K43 e w43) = face_of w43"
  "arc_length_of (set_shape e v44 w44) = arc_length_of w44"
  "arc_length_of (set_prev e v45 w45) = arc_length_of w45"
  "arc_length_of (set_next e v46 w46) = arc_length_of w46"
  "arc_length_of (set_face e v47 w47) = arc_length_of w47"
  "arc_length_of (set_arc_length e v48 w48) = (arc_length_of w48)(e := v48)"
  "arc_length_of (set_first t v49 w49) = arc_length_of w49"
  "arc_length_of (set_last t v50 w50) = arc_length_of w50"
  "arc_length_of (set_box_cache t v51 w51) = arc_length_of w51"
  "arc_length_of (set_orientation_cache t v52 w52) = arc_length_of w52"
  "arc_length_of (planar_add K53 e w53) = arc_length_of w53"
  "arc_length_of (planar_delete K54 e w54) = arc_length_of w54"
  "first_of (set_first t v55 w55) = (first_of w55)(t := v55)"
  "first_of (set_last t v56 w56) = first_of w56"
  "first_of (set_box_cache t v57 w57) = first_of w57"
  "first_of (set_orientation_cache t v58 w58) = first_of w58"
  "first_of (set_shape e v59 w59) = first_of w59"
  "first_of (set_prev e v60 w60) = first_of w60"
  "first_of (set_next e v61 w61) = first_of w61"
  "first_of (set_face e v62 w62) = first_of w62"
  "first_of (set_arc_length e v63 w63) = first_of w63"
  "first_of (planar_add K64 e w64) = first_of w64"
  "first_of (planar_delete K65 e w65) = first_of w65"
  "last_of (set_first t v66 w66) = last_of w66"
  "last_of (set_last t v67 w67) = (last_of w67)(t := v67)"
  "last_of (set_box_cache t v68 w68) = last_of w68"
  "last_of (set_orientation_cache t v69 w69) = last_of w69"
  "last_of (set_shape e v70 w70) = last_of w70"
  "last_of (set_prev e v71 w71) = last_of w71"
  "last_of (set_next e v72 w72) = last_of w72"
  "last_of (set_face e v73 w73) = last_of w73"
  "last_of (set_arc_length e v74 w74) = last_of w74"
  "last_of (planar_add K75 e w75) = last_of w75"
  "last_of (planar_delete K76 e w76) = last_of w76"
  "box_cache_of (set_first t v77 w77) = box_cache_of w77"
  "box_cache_of (set_last t v78 w78) = box_cache_of w78"
  "box_cache_of (set_box_cache t v79 w79) = (box_cache_of w79)(t := v79)"
  "box_cache_of (set_orientation_cache t v80 w80) = box_cache_of w80"
  "box_cache_of (set_shape e v81 w81) = box_cache_of w81"
  "box_cache_of (set_prev e v82 w82) = box_cache_of w82"
  "box_cache_of (set_next e v83 w83) = box_cache_of w83"
  "box_cache_of (set_face e v84 w84) = box_cache_of w84"
  "box_cache_of (set_arc_length e v85 w85) = box_cache_of w85"
  "box_cache_of (planar_add K86 e w86) = box_cache_of w86"
  "box_cache_of (planar_delete K87 e w87) = box_cache_of w87"
  "orientation_cache_of (set_first t v88 w88) = orientation_cache_of w88"
  "orientation_cache_of (set_last t v89 w89) = orientation_cache_of w89"
  "orientation_cache_of (set_box_cache t v90 w90) = orientation_cache_of w90"
  "orientation_cache_of (set_orientation_cache t v91 w91) = (orientation_cache_of w91)(t := v91)"
  "orientation_cache_of (set_shape e v92 w92) = orientation_cache_of w92"
  "orientation_cache_of (set_prev e v93 w93) = orientation_cache_of w93"
  "orientation_cache_of (set_next e v94 w94) = orientation_cache_of w94"
  "orientation_cache_of (set_face e v95 w95) = orientation_cache_of w95"
  "orientation_cache_of (set_arc_length e v96 w96) = orientation_cache_of w96"
  "orientation_cache_of (planar_add K97 e w97) = orientation_cache_of w97"
  "orientation_cache_of (planar_delete K98 e w98) = orientation_cache_of w98"
  "planar (set_shape e v99 w99) = planar w99"
  "planar (set_prev e v100 w100) = planar w100"
  "planar (set_next e v101 w101) = planar w101"
  "planar (set_face e v102 w102) = planar w102"
  "planar (set_arc_length e v103 w103) = planar w103"
  "planar (set_first t v104 w104) = planar w104"
  "planar (set_last t v105 w105) = planar w105"
  "planar (set_box_cache t v106 w106) = planar w106"
  "planar (set_orientation_cache t v107 w107) = planar w107"
  "fresh (set_shape e v108 w108) = fresh w108"
  "fresh (set_prev e v109 w109) = fresh w109"
  "fresh (set_next e v110 w110) = fresh w110"
  "fresh (set_face e v111 w111) = fresh w111"
  "fresh (set_arc_length e v112 w112) = fresh w112"
  "fresh (set_first t v113 w113) = fresh w113"
  "fresh (set_last t v114 w114) = fresh w114"
  "fresh (set_box_cache t v115 w115) = fresh w115"
  "fresh (set_orientation_cache t v116 w116) = fresh w116"
  "fresh (planar_add K117 e w117) = fresh w117"
  "fresh (planar_delete K118 e w118) = fresh w118"
  "planar (planar_add K119 e w119) = set_add K119 e (shape_of w119 e) (planar w119)"
  "planar (planar_delete K120 e w120) = set_delete K120 e (shape_of w120 e) (planar w120)"
  by (simp_all add: shape_of_def prev_of_def next_of_def face_of_def arc_length_of_def set_shape_def set_prev_def set_next_def set_face_def set_arc_length_def first_of_def last_of_def box_cache_of_def orientation_cache_of_def set_first_def set_last_def set_box_cache_def set_orientation_cache_def planar_add_def planar_delete_def fun_eq_iff)

lemma chain_Cons: "chain h (a # xs) \<longleftrightarrow> (xs = [] \<or> (h a = Some (hd xs) \<and> chain h xs))"
  by (cases xs) auto

lemma chain_append:
  "chain h (xs @ ys) \<longleftrightarrow>
     chain h xs \<and> chain h ys \<and> (xs \<noteq> [] \<and> ys \<noteq> [] \<longrightarrow> h (last xs) = Some (hd ys))"
  by (induction h xs rule: chain.induct) (auto simp: chain_Cons)

lemma chain_cong: "(\<And>x. x \<in> set (butlast xs) \<Longrightarrow> h x = h' x) \<Longrightarrow> chain h xs = chain h' xs"
  by (induction h xs rule: chain.induct) auto

lemma chain_upd: "u \<notin> set (butlast xs) \<Longrightarrow> chain (h(u := v)) xs = chain h xs"
  by (rule chain_cong) auto

lemma for_of_rest:
  assumes keeps: "\<And>v s s' b. body v s = Inr (s', b) \<Longrightarrow>
              next_of (wof s') = next_of (wof s) \<and> first_of (wof s') this = first_of (wof s) this"
  shows "chain (next_of (wof s)) (as @ [f]) \<Longrightarrow> first_of (wof s) this = Some f \<Longrightarrow> f \<notin> set as \<Longrightarrow>
         for_of wof this body (Some (hd (as @ [f]))) s = Some (fold_break body as s)"
proof (induction as arbitrary: s)
  case Nil
  then show ?case
    by (subst for_of.simps) (simp add: iterator_next_def)
next
  case (Cons c cs)
  have nx: "next_of (wof s) c = Some (hd (cs @ [f]))"
    using Cons.prems(1) by (cases cs) auto
  have ch: "chain (next_of (wof s)) (cs @ [f])"
    using Cons.prems(1) by (cases cs) auto
  show ?case
  proof (cases "body c s")
    case (Inl x)
    then show ?thesis using Cons.prems nx
      by (subst for_of.simps) (auto simp: iterator_next_def Let_def)
  next
    case (Inr p)
    obtain s' brk where p: "p = (s', brk)" by (cases p)
    have k: "next_of (wof s') = next_of (wof s)" "first_of (wof s') this = first_of (wof s) this"
      using keeps[of c s s' brk] Inr p by auto
    have rec: "for_of wof this body (Some (hd (cs @ [f]))) s' = Some (fold_break body cs s')"
      using Cons.prems k ch by (intro Cons.IH) auto
    show ?thesis using Cons.prems nx Inr p rec
      by (subst for_of.simps) (auto simp: iterator_next_def Let_def)
  qed
qed

lemma for_of_loop:
  assumes keeps: "\<And>v s s' b. body v s = Inr (s', b) \<Longrightarrow>
              next_of (wof s') = next_of (wof s) \<and> first_of (wof s') this = first_of (wof s) this"
    and lp: "loop_of (wof s) this es"
  shows "for_of wof this body None s = Some (fold_break body es s)"
proof -
  obtain f rest where es: "es = f # rest" using lp by (cases es) (auto simp: loop_of_def)
  have fst: "first_of (wof s) this = Some f" and nf: "f \<notin> set rest"
    and ch: "chain (next_of (wof s)) (rest @ [f])"
    and nx: "next_of (wof s) f = Some (hd (rest @ [f]))"
    using lp unfolding es loop_of_def by (auto simp: chain_append chain_Cons hd_append)
  show ?thesis
  proof (cases "body f s")
    case (Inl x)
    then show ?thesis using fst nx unfolding es
      by (subst for_of.simps) (auto simp: iterator_next_def Let_def)
  next
    case (Inr p)
    obtain s' brk where p: "p = (s', brk)" by (cases p)
    have k: "next_of (wof s') = next_of (wof s)" "first_of (wof s') this = first_of (wof s) this"
      using keeps[of f s s' brk] Inr p by auto
    have rec: "for_of wof this body (Some (hd (rest @ [f]))) s' = Some (fold_break body rest s')"
      using k ch fst nf by (intro for_of_rest keeps) auto
    show ?thesis using fst nx Inr p rec unfolding es
      by (subst for_of.simps) (auto simp: iterator_next_def Let_def)
  qed
qed

lemma for_of_empty:
  "first_of (wof s) this = None \<Longrightarrow> for_of wof this body None s = Some (Inr s)"
  by (subst for_of.simps) (simp add: iterator_next_def)

lemma last_notin_butlast: "distinct xs \<Longrightarrow> xs \<noteq> [] \<Longrightarrow> last xs \<notin> set (butlast xs)"
  by (induction xs) (auto dest: in_set_butlastD)

lemma chain_upd_last: "distinct xs \<Longrightarrow> xs \<noteq> [] \<Longrightarrow> chain (h(last xs := v)) xs = chain h xs"
  by (simp add: chain_upd last_notin_butlast)

lemma chain_upd_notin: "u \<notin> set xs \<Longrightarrow> chain (h(u := v)) xs = chain h xs"
  by (rule chain_upd) (auto dest: in_set_butlastD)

lemma link_edge_first:
  "first_of w this = None \<Longrightarrow>
   link_edge K this e w =
     Inr (set_arc_length e 0 (set_last this (Some e) (set_first this (Some e)
            (set_next e (Some e) (set_prev e (Some e) w)))))"
  by (simp add: link_edge_def)

lemma loop_of_single:
  "loop_of (set_arc_length e v (set_last this (Some e) (set_first this (Some e)
            (set_next e (Some e) (set_prev e (Some e) w))))) this [e]"
  by (simp add: loop_of_def)

lemma link_edge_more:
  assumes "loop_of w this es" "e \<notin> set es"
  shows "link_edge K this e w =
     Inr (set_arc_length e (arc_length_of w (last es) + shape_length K (shape_of w (last es)))
           (set_prev (hd es) (Some e) (set_next e (Some (hd es)) (set_last this (Some e)
             (set_next (last es) (Some e) (set_prev e (Some (last es)) w))))))"
proof -
  have "hd es \<noteq> e" "last es \<noteq> e" using assms by (auto simp: loop_of_def)
  then show ?thesis using assms by (simp add: link_edge_def loop_of_def)
qed

lemma loop_of_snoc:
  assumes "loop_of w this es" "e \<notin> set es"
  shows "loop_of (set_arc_length e v
           (set_prev (hd es) (Some e) (set_next e (Some (hd es)) (set_last this (Some e)
             (set_next (last es) (Some e) (set_prev e (Some (last es)) w)))))) this (es @ [e])"
proof -
  have ne: "hd es \<noteq> e" "last es \<noteq> e" "es \<noteq> []" "distinct es" using assms by (auto simp: loop_of_def)
  have hdl: "hd es = last (rev es)" using ne by (simp add: last_rev)
  have "chain ((prev_of w)(e := Some (last es), hd es := Some e)) (rev es) = chain (prev_of w) (rev es)"
    unfolding hdl using ne assms(2) by (simp add: chain_upd_last chain_upd_notin)
  then show ?thesis using assms ne
    by (simp add: loop_of_def chain_append chain_upd_last chain_upd_notin chain_Cons hd_rev)
qed

lemma loop_next_mid:
  assumes "loop_of w this (xs @ b # ys)"
  shows "next_of w b = Some (if ys = [] then hd (xs @ [b]) else hd ys)"
  using assms by (cases ys) (auto simp: loop_of_def chain_append hd_append)

lemma loop_of_insert_mid:
  assumes "loop_of w this (xs @ b # ys)" "n \<notin> set (xs @ b # ys)" "ys \<noteq> []"
  shows "loop_of (set_next n (Some (hd ys)) (set_prev n (Some b)
            (set_prev (hd ys) (Some n) (set_next b (Some n) w)))) this (xs @ b # n # ys)"
proof -
  obtain a zs where ys: "ys = a # zs" using assms(3) by (cases ys) auto
  have d: "distinct (xs @ b # a # zs)" "n \<notin> set xs" "n \<noteq> b" "n \<noteq> a" "n \<notin> set zs"
    using assms unfolding ys by (auto simp: loop_of_def)
  have c1: "chain ((next_of w)(b := Some n, n := Some a)) (xs @ [b]) = chain (next_of w) (xs @ [b])"
    using d by (simp add: chain_upd chain_upd_notin)
  have c2: "chain ((next_of w)(b := Some n, n := Some a)) (a # zs) = chain (next_of w) (a # zs)"
    using d by (simp add: chain_upd_notin)
  have c3: "chain ((prev_of w)(a := Some n, n := Some b)) (rev zs @ [a]) = chain (prev_of w) (rev zs @ [a])"
    using d by (simp add: chain_upd chain_upd_notin)
  have c4: "chain ((prev_of w)(a := Some n, n := Some b)) (b # rev xs) = chain (prev_of w) (b # rev xs)"
    using d by (simp add: chain_upd_notin)
  have n1: "chain ((next_of w)(b := Some n, n := Some a)) (xs @ b # n # a # zs)"
    using assms(1) c1 c2 d unfolding ys loop_of_def
    by (simp add: chain_append[of _ "xs @ [b]" "n # a # zs", simplified] chain_append[of _ "xs @ [b]" "a # zs", simplified])
  have p1: "chain ((prev_of w)(a := Some n, n := Some b)) (rev zs @ a # n # b # rev xs)"
    using assms(1) c3 c4 d unfolding ys loop_of_def
    by (simp add: chain_append[of _ "rev zs @ [a]" "n # b # rev xs", simplified] chain_append[of _ "rev zs @ [a]" "b # rev xs", simplified])
  have e: "xs \<noteq> [] \<Longrightarrow> hd xs \<noteq> n" "zs \<noteq> [] \<Longrightarrow> last zs \<noteq> n"
    using d by auto
  show ?thesis
    using assms(1) n1 p1 d e unfolding ys loop_of_def
    by (auto simp: hd_append)
qed

lemma loop_of_insert_last:
  assumes "loop_of w this (xs @ [b])" "n \<notin> set (xs @ [b])"
  shows "loop_of (set_first this (Some n) (set_next n (Some (hd (xs @ [b]))) (set_prev n (Some b)
            (set_prev (hd (xs @ [b])) (Some n) (set_next b (Some n) w))))) this (n # xs @ [b])"
proof -
  let ?a = "hd (xs @ [b])"
  have d: "distinct (xs @ [b])" "n \<notin> set xs" "n \<noteq> b" "n \<noteq> ?a"
    using assms by (auto simp: loop_of_def hd_append)
  have d5: "?a \<notin> set (butlast (rev (xs @ [b])))"
    using last_notin_butlast[of "rev (xs @ [b])"] d(1) by (simp only: last_rev distinct_rev) simp
  have c1: "chain ((next_of w)(b := Some n, n := Some ?a)) (xs @ [b]) = chain (next_of w) (xs @ [b])"
    using d by (simp add: chain_upd chain_upd_notin)
  have c2: "chain ((prev_of w)(?a := Some n, n := Some b)) (rev (xs @ [b])) = chain (prev_of w) (rev (xs @ [b]))"
    using d(1-4) by (subst chain_upd_notin, simp, subst chain_upd[OF d5], simp)
  have c3: "chain ((next_of w)(b := Some n, n := Some ?a)) (n # xs @ [b])"
    using c1 assms(1) d by (subst chain_Cons) (simp add: loop_of_def)
  have c4: "chain ((prev_of w)(?a := Some n, n := Some b)) (rev (n # xs @ [b]))"
    using c2 assms(1) d
    by (simp add: loop_of_def chain_append[of _ "b # rev xs" "[n]", simplified] last_rev hd_append)
  show ?thesis
    using assms(1) c3 c4 d unfolding loop_of_def
    by (auto simp: hd_append)
qed

lemma loop_links:
  assumes "loop_of w this (xs @ e # ys)"
  shows "next_of w e = Some (hd (ys @ xs @ [e]))" "prev_of w e = Some (last (e # ys @ xs))"
proof -
  show "next_of w e = Some (hd (ys @ xs @ [e]))"
    using assms by (cases ys) (auto simp: loop_of_def chain_append hd_append)
  have "chain (prev_of w) (rev ys @ e # rev xs)" "prev_of w (hd (xs @ [e])) = Some (last (e # ys))"
    using assms by (auto simp: loop_of_def hd_append)
  then show "prev_of w e = Some (last (e # ys @ xs))"
    by (cases xs rule: rev_cases) (auto simp: chain_append)
qed

lemma insert_f_frame:
  "insert_f K this newEdge edgeBefore w = Inr w' \<Longrightarrow> e \<noteq> newEdge \<Longrightarrow>
   arc_length_of w' e = arc_length_of w e"
  by (auto simp: insert_f_def Let_def split: option.splits if_splits sum.splits)

lemma loop_of_frame [simp]:
  "loop_of (set_shape e s w) = loop_of w"
  "loop_of (set_face e v1 w) = loop_of w"
  "loop_of (set_arc_length e v2 w) = loop_of w"
  "loop_of (set_box_cache t v3 w) = loop_of w"
  "loop_of (set_orientation_cache t v4 w) = loop_of w"
  "loop_of (planar_add K e w) = loop_of w"
  "loop_of (planar_delete K e w) = loop_of w"
  by (simp_all add: loop_of_def fun_eq_iff)

lemma insert_f_last:
  assumes "loop_of w this (xs @ [b])" "n \<notin> set (xs @ [b])"
  shows "insert_f K this n b w =
     Inr (planar_add K n (set_arc_length n 0 (set_face n (Some this)
       (set_first this (Some n) (set_next n (Some (hd (xs @ [b]))) (set_prev n (Some b)
            (set_prev (hd (xs @ [b])) (Some n) (set_next b (Some n) w))))))))"
proof -
  have nx: "next_of w b = Some (hd (xs @ [b]))"
    using loop_next_mid[of w this xs b "[]"] assms(1) by simp
  have fl: "first_of w this = Some (hd (xs @ [b]))" "last_of w this = Some b"
    using assms(1) by (auto simp: loop_of_def)
  show ?thesis using nx fl by (simp add: insert_f_def Let_def del: hd_append2)
qed

lemma insert_f_mid:
  assumes "loop_of w this (xs @ b # ys)" "n \<notin> set (xs @ b # ys)" "ys \<noteq> []"
  shows "insert_f K this n b w =
     Inr (planar_add K n (set_arc_length n (arc_length_of w b + shape_length K (shape_of w b))
       (set_face n (Some this)
       (set_next n (Some (hd ys)) (set_prev n (Some b)
            (set_prev (hd ys) (Some n) (set_next b (Some n) w)))))))"
proof -
  have nx: "next_of w b = Some (hd ys)"
    using loop_next_mid[of w this xs b ys] assms(1,3) by simp
  have fl: "first_of w this = Some (hd (xs @ b # ys))" "last_of w this = Some (last ys)"
    using assms(1,3) by (auto simp: loop_of_def)
  have "last ys \<noteq> b" "n \<noteq> b" using assms by (auto simp: loop_of_def)
  then show ?thesis using nx fl by (simp add: insert_f_def Let_def del: hd_append2)
qed

lemma insert_f_loop:
  assumes "loop_of w this es" "b \<in> set es" "n \<notin> set es"
  shows "\<exists>w' es'. insert_f K this n b w = Inr w' \<and> loop_of w' this es' \<and> set es' = insert n (set es)
          \<and> length es' = Suc (length es)"
proof -
  obtain xs ys where es: "es = xs @ b # ys" using assms(2) by (auto dest: split_list)
  show ?thesis
  proof (cases "ys = []")
    case True
    have "loop_of (set_first this (Some n) (set_next n (Some (hd (xs @ [b]))) (set_prev n (Some b)
            (set_prev (hd (xs @ [b])) (Some n) (set_next b (Some n) w))))) this (n # xs @ [b])"
      using loop_of_insert_last[of w this xs b n] assms es True by simp
    moreover have "set (n # xs @ [b]) = insert n (set es)" "length (n # xs @ [b]) = Suc (length es)"
      using es True by auto
    ultimately show ?thesis
      using insert_f_last[of w this xs b n K] assms es True
      by (simp del: hd_append2 set_append set_simps length_append list.size)
         (rule exI[of _ "n # xs @ [b]"], simp del: hd_append2)
  next
    case False
    have "loop_of (set_next n (Some (hd ys)) (set_prev n (Some b)
            (set_prev (hd ys) (Some n) (set_next b (Some n) w)))) this (xs @ b # n # ys)"
      using loop_of_insert_mid[of w this xs b ys n] assms es False by simp
    moreover have "set (xs @ b # n # ys) = insert n (set es)" "length (xs @ b # n # ys) = Suc (length es)"
      using es by auto
    ultimately show ?thesis
      using insert_f_mid[of w this xs b ys n K] assms es False
      by (simp del: hd_append2 set_append set_simps length_append list.size)
         (rule exI[of _ "xs @ b # n # ys"], simp del: hd_append2)
  qed
qed

lemma hd_notin_butlast_rev: "distinct xs \<Longrightarrow> xs \<noteq> [] \<Longrightarrow> hd xs \<notin> set (butlast (rev xs))"
  using last_notin_butlast[of "rev xs"] by (simp only: last_rev distinct_rev) simp

lemma loop_of_remove_first:
  assumes "loop_of w this (e # ys)" "ys \<noteq> []"
  shows "loop_of (set_first this (Some (hd ys))
            (set_prev (hd ys) (Some (last ys)) (set_next (last ys) (Some (hd ys)) w))) this ys"
proof -
  have d: "distinct ys" using assms by (auto simp: loop_of_def)
  have "chain (next_of w) ys" "chain (prev_of w) (rev ys)"
    using assms by (auto simp: loop_of_def chain_append chain_Cons)
  then show ?thesis using assms d
    by (simp add: loop_of_def chain_upd_last chain_upd[OF hd_notin_butlast_rev])
qed

lemma loop_of_remove_last:
  assumes "loop_of w this (xs @ [e])" "xs \<noteq> []"
  shows "loop_of (set_last this (Some (last xs))
            (set_prev (hd xs) (Some (last xs)) (set_next (last xs) (Some (hd xs)) w))) this xs"
proof -
  have d: "distinct xs" using assms by (auto simp: loop_of_def)
  have "chain (next_of w) xs" "chain (prev_of w) (rev xs)"
    using assms by (auto simp: loop_of_def chain_append chain_Cons)
  then show ?thesis using assms d
    by (simp add: loop_of_def chain_upd_last chain_upd[OF hd_notin_butlast_rev])
qed

lemma loop_of_remove_mid:
  assumes "loop_of w this (xs @ e # ys)" "xs \<noteq> []" "ys \<noteq> []"
  shows "loop_of (set_prev (hd ys) (Some (last xs)) (set_next (last xs) (Some (hd ys)) w)) this (xs @ ys)"
proof -
  have d: "distinct xs" "distinct ys" "set xs \<inter> set ys = {}" using assms by (auto simp: loop_of_def)
  have lx: "last xs \<notin> set ys" "hd ys \<notin> set xs" using d assms(2,3) by (auto simp: disjoint_iff)
  have c: "chain (next_of w) xs" "chain (next_of w) ys" "chain (prev_of w) (rev xs)" "chain (prev_of w) (rev ys)"
    using assms(1) by (auto simp: loop_of_def chain_append chain_Cons)
  have n: "chain ((next_of w)(last xs := Some (hd ys))) (xs @ ys)"
    using c d lx assms(2,3) by (simp add: chain_append chain_upd_last chain_upd_notin)
  have p: "chain ((prev_of w)(hd ys := Some (last xs))) (rev ys @ rev xs)"
    using c d lx assms(2,3)
    by (simp add: chain_append chain_upd[OF hd_notin_butlast_rev] chain_upd_notin last_rev hd_rev)
  have ly: "last ys \<noteq> last xs" "hd xs \<noteq> hd ys"
    using lx assms(2,3) last_in_set[of ys] hd_in_set[of xs] by metis+
  show ?thesis using assms n p d lx ly
    by (auto simp: loop_of_def hd_append)
qed


lemma remove_f_loop:
  assumes "loop_of w this es" "e \<in> set es" "length es \<noteq> 1"
  shows "\<exists>w' es'. remove_f K this e w = Inr w' \<and> loop_of w' this es' \<and> set es' = set es - {e}
          \<and> Suc (length es') = length es"
proof -
  obtain xs ys where es: "es = xs @ e # ys" using assms(2) by (auto dest: split_list)
  have d: "distinct (xs @ e # ys)" and fl: "first_of w this = Some (hd (xs @ [e]))"
      "last_of w this = Some (last (e # ys))"
    using assms(1) unfolding es by (auto simp: loop_of_def hd_append)
  have ne: "xs \<noteq> [] \<or> ys \<noteq> []" using assms(3) es by auto
  have lk: "next_of w e = Some (hd (ys @ xs @ [e]))" "prev_of w e = Some (last (e # ys @ xs))"
    using loop_links[of w this xs e ys] assms(1) es by auto
  have sets: "set (xs @ ys) = set es - {e}" "Suc (length (xs @ ys)) = length es"
    using d es by auto
  consider (first) "xs = []" "ys \<noteq> []" | (last) "xs \<noteq> []" "ys = []" | (mid) "xs \<noteq> []" "ys \<noteq> []"
    using ne by blast
  then show ?thesis
  proof cases
    case first
    have ney: "last ys \<noteq> e" "hd ys \<noteq> e" using d first by auto
    have eq: "remove_f K this e w = Inr (planar_delete K e (set_first this (Some (hd ys))
            (set_prev (hd ys) (Some (last ys)) (set_next (last ys) (Some (hd ys)) w))))"
      using first fl lk ney by (simp add: remove_f_def Let_def)
    show ?thesis unfolding eq using loop_of_remove_first[of w this e ys] assms(1) es first sets
      by (simp del: set_append length_append) (rule exI[of _ ys], simp)
  next
    case last
    have ney: "last xs \<noteq> e" "hd xs \<noteq> e" using d last by auto
    have eq: "remove_f K this e w = Inr (planar_delete K e (set_last this (Some (last xs))
            (set_prev (hd xs) (Some (last xs)) (set_next (last xs) (Some (hd xs)) w))))"
      using last fl lk ney by (simp add: remove_f_def Let_def)
    show ?thesis unfolding eq using loop_of_remove_last[of w this xs e] assms(1) es last sets
      by (simp del: set_append length_append) (rule exI[of _ xs], simp)
  next
    case mid
    have ney: "last xs \<noteq> e" "hd xs \<noteq> e" "last ys \<noteq> e" "hd ys \<noteq> e" using d mid by auto
    have eq: "remove_f K this e w = Inr (planar_delete K e
            (set_prev (hd ys) (Some (last xs)) (set_next (last xs) (Some (hd ys)) w)))"
      using mid fl lk ney by (simp add: remove_f_def Let_def)
    show ?thesis unfolding eq using loop_of_remove_mid[of w this xs e ys] assms(1) es mid sets
      by (simp del: set_append length_append) (rule exI[of _ "xs @ ys"], simp)
  qed
qed

lemma remove_f_sole:
  assumes "loop_of w this [e]"
  shows "remove_f K this e w = Inr (planar_delete K e (set_last this None (set_first this None w)))"
  using assms by (simp add: remove_f_def loop_of_def)

lemma fold_break_size:
  "fold_break (\<lambda>edge counter. Inr (Suc counter, False)) es c = Inr (c + length es)"
  by (induction es arbitrary: c) auto

lemma fold_break_edges:
  "fold_break (\<lambda>edge face_edges. Inr (face_edges @ [edge], False)) es acc = Inr (acc @ es)"
  by (induction es arbitrary: acc) auto

lemma size_f_loop: "loop_of w this es \<Longrightarrow> size_f this w = Some (Inr (length es))"
  unfolding size_f_def
  by (subst for_of_loop[where es = es]) (auto simp: fold_break_size)

lemma edges_loop: "loop_of w this es \<Longrightarrow> edges this w = Some (Inr es)"
  unfolding edges_def
  by (subst for_of_loop[where es = es]) (auto simp: fold_break_edges)

lemma size_f_empty: "first_of w this = None \<Longrightarrow> size_f this w = Some (Inr 0)"
  unfolding size_f_def by (simp add: for_of_empty)

lemma edges_empty: "first_of w this = None \<Longrightarrow> edges this w = Some (Inr [])"
  unfolding edges_def by (simp add: for_of_empty)

lemma loop_of_first: "loop_of w this es \<Longrightarrow> first_of w this \<noteq> None"
  by (simp add: loop_of_def)

lemma well_formed_iff:
  "well_formed w this \<longleftrightarrow> isEmpty this w \<or> (\<exists>es. loop_of w this es)"
proof
  assume "well_formed w this"
  then show "isEmpty this w \<or> (\<exists>es. loop_of w this es)"
    by (auto simp: well_formed_def split: option.splits sum.splits if_splits)
next
  assume "isEmpty this w \<or> (\<exists>es. loop_of w this es)"
  then show "well_formed w this"
  proof
    assume "isEmpty this w"
    then show ?thesis by (simp add: well_formed_def isEmpty_def edges_empty)
  next
    assume "\<exists>es. loop_of w this es"
    then obtain es where lp: "loop_of w this es" ..
    then have "es \<noteq> []" by (simp add: loop_of_def)
    then show ?thesis using lp by (simp add: well_formed_def edges_loop)
  qed
qed

lemma in_face_loop: "loop_of w this es \<Longrightarrow> in_face w this e \<longleftrightarrow> e \<in> set es"
  by (simp add: in_face_def edges_loop)

lemma in_face_empty: "first_of w this = None \<Longrightarrow> \<not> in_face w this e"
  by (simp add: in_face_def edges_empty)

lemma follow_chain:
  "chain (next_of w) (xs @ [b]) \<Longrightarrow> follow w (length xs) (hd (xs @ [b])) = Some b"
proof (induction xs)
  case Nil
  then show ?case by simp
next
  case (Cons a xs)
  then show ?case by (cases xs) auto
qed

lemma circular_loop:
  assumes "loop_of w this es"
  shows "circular w this"
proof -
  have "chain (next_of w) (es @ [hd es])"
    using assms by (simp add: loop_of_def chain_append)
  then have "follow w (length es) (hd (es @ [hd es])) = Some (hd es)" by (rule follow_chain)
  then have "follow w (length es) (hd es) = Some (hd es)" using assms by (simp add: loop_of_def)
  then show ?thesis using assms
    by (simp add: circular_def size_f_loop) (simp add: loop_of_def)
qed

lemma append_loop:
  assumes "well_formed w this" "\<not> in_face w this e"
  shows "\<exists>w' es'. append K this e w = Inr w' \<and> loop_of w' this es'"
proof -
  from assms(1) consider (empty) "isEmpty this w" | (loop) es where "loop_of w this es"
    by (auto simp: well_formed_iff)
  then show ?thesis
  proof cases
    case empty
    then have "first_of w this = None" by (simp add: isEmpty_def)
    then show ?thesis
      using loop_of_single[of e 0 this w]
      by (simp add: append_def link_edge_first) blast
  next
    case loop
    then have "e \<notin> set es" using assms(2) by (simp add: in_face_loop)
    then show ?thesis
      using loop loop_of_snoc[of w this es e]
      by (simp add: append_def link_edge_more) blast
  qed
qed

lemma mutate_well_formed:
  assumes "well_formed w this" "allowed w this m"
  shows "\<exists>w'. mutate K this m w = Inr w' \<and> well_formed w' this"
proof (cases m)
  case (Append e)
  then show ?thesis using append_loop[of w this e K] assms by (auto simp: well_formed_iff)
next
  case (Insert n b)
  then have b: "in_face w this b" and n: "\<not> in_face w this n" using assms(2) by auto
  from b have "\<not> isEmpty this w" using in_face_empty[of w this b] by (auto simp: isEmpty_def)
  then obtain es where lp: "loop_of w this es" using assms(1) by (auto simp: well_formed_iff)
  then show ?thesis
    using insert_f_loop[of w this es b n K] b n Insert by (auto simp: in_face_loop well_formed_iff)
next
  case (Remove e)
  then have e: "in_face w this e" using assms(2) by auto
  then have "\<not> isEmpty this w" using in_face_empty[of w this e] by (auto simp: isEmpty_def)
  then obtain es where lp: "loop_of w this es" using assms(1) by (auto simp: well_formed_iff)
  then have mem: "e \<in> set es" using e by (simp add: in_face_loop)
  show ?thesis
  proof (cases "length es = 1")
    case True
    then have "es = [e]" using mem by (cases es) auto
    then show ?thesis using lp Remove
      by (simp add: remove_f_sole well_formed_iff isEmpty_def)
  next
    case False
    then show ?thesis
      using remove_f_loop[of w this es e K] lp mem Remove by (auto simp: well_formed_iff)
  qed
qed

lemma mutations_well_formed:
  "well_formed w this \<Longrightarrow> all_allowed K this ms w \<Longrightarrow>
   \<exists>w'. mutations K this ms w = Inr w' \<and> well_formed w' this"
proof (induction ms arbitrary: w)
  case Nil
  then show ?case by simp
next
  case (Cons m ms)
  then obtain w1 where w1: "mutate K this m w = Inr w1" "well_formed w1 this"
    using mutate_well_formed[of w this m K] by auto
  then show ?case using Cons by simp
qed

text \<open>
  C1 (as amended). Start from a face that is empty or a doubly linked loop, and run any
  sequence of \<open>append\<close>, \<open>insert\<close> and \<open>remove\<close> in which every appended or inserted edge
  is not in the face at that moment, and every \<open>edgeBefore\<close> and every removed edge is.
  Then no call throws, and if the face is not empty at the end, following \<open>next\<close> from
  \<open>first\<close> exactly \<open>size()\<close> times returns to \<open>first\<close>, \<open>first.prev\<close> is \<open>last\<close> and
  \<open>last.next\<close> is \<open>first\<close>.
\<close>

theorem circular_after_mutations:
  assumes "well_formed w this" and "all_allowed K this ms w"
  shows "\<exists>w'. mutations K this ms w = Inr w' \<and> (\<not> isEmpty this w' \<longrightarrow> circular w' this)"
proof -
  obtain w' where w': "mutations K this ms w = Inr w'" "well_formed w' this"
    using mutations_well_formed[OF assms] by auto
  then show ?thesis by (auto simp: well_formed_iff circular_loop)
qed

theorem circular_after_mutations_witness:
  "well_formed rectangle 0 \<and>
   all_allowed K0 0 [Remove 1, Insert 1 3, Remove 0, Append 0] rectangle \<and>
   (\<exists>w'. mutations K0 0 [Remove 1, Insert 1 3, Remove 0, Append 0] rectangle = Inr w' \<and>
         (\<not> isEmpty 0 w' \<longrightarrow> circular w' 0))"
proof -
  have h1: "well_formed rectangle 0" by code_simp
  have h2: "all_allowed K0 0 [Remove 1, Insert 1 3, Remove 0, Append 0] rectangle" by code_simp
  show ?thesis using circular_after_mutations[OF h1 h2] h1 h2 by simp
qed

text \<open>
  The claim as it is written asks only that \<open>edgeBefore\<close> belongs to the face. On the
  rectangle with the edges 0, 1, 2, 3 the sequence remove(1), remove(0), remove(1) has no
  insert at all; the second removal of edge 1 writes through its stale links, and the face
  ends with \<open>first = 2\<close>, \<open>last = 3\<close> and \<open>first.prev = 0\<close>.
\<close>

theorem circular_counterexample:
  "well_formed rectangle 0 \<and> \<not> isEmpty 0 rectangle \<and>
   all_unguarded K0 0 [Remove 1, Remove 0, Remove 1] rectangle \<and>
   circular_after K0 0 [Remove 1, Remove 0, Remove 1] rectangle = Some (False, False)"
  by code_simp

text \<open>
  The two other conditions on the sequence are needed as well. Inserting edge 0, which is in
  the face already, after edge 1 leaves \<open>first.prev = 1\<close> with \<open>last = 3\<close>. Appending edge
  1, which is in the face already, shortens the traversal to 0, 1 while \<open>last\<close> still leads
  to the old chain; removing edge 1 and inserting the new edge 4 after edge 1, both in the
  traversal at their moment, then leaves \<open>first.prev = 4\<close> with \<open>last = 3\<close>.
\<close>

lemma insert_of_member_breaks_loop:
  "circular_after K0 0 [Insert 0 1] rectangle = Some (False, False)"
  by code_simp

lemma append_of_member_breaks_loop:
  "circular_after K0 0 [Append 1, Remove 1, Insert 4 1] spare = Some (False, False)"
  by code_simp

text \<open>
  C8. On a face that is a loop, \<open>insert\<close> after an edge of the face returns normally; it
  leaves the \<open>arc_length\<close> of every edge other than \<open>newEdge\<close> as it was, and sets that of
  \<open>newEdge\<close> to 0 after \<open>last\<close>, and to the arc length of \<open>edgeBefore\<close> plus its length
  otherwise.
\<close>

theorem insert_sets_arc_length_of_newEdge_only:
  assumes "loop_of w this es" and "edgeBefore \<in> set es"
  shows "\<exists>w'. insert_f K this newEdge edgeBefore w = Inr w' \<and>
              (\<forall>e. e \<noteq> newEdge \<longrightarrow> arc_length_of w' e = arc_length_of w e) \<and>
              arc_length_of w' newEdge =
                (if last_of w this = Some edgeBefore then 0
                 else arc_length_of w edgeBefore + shape_length K (shape_of w edgeBefore))"
proof -
  obtain xs ys where es: "es = xs @ edgeBefore # ys" using assms(2) by (auto dest: split_list)
  obtain a where nx: "next_of w edgeBefore = Some a"
    using loop_next_mid[of w this xs edgeBefore ys] assms(1) es by auto
  obtain f l where fl: "first_of w this = Some f" "last_of w this = Some l"
    using assms(1) by (auto simp: loop_of_def)
  show ?thesis using nx fl by (simp add: insert_f_def Let_def)
qed

theorem insert_sets_arc_length_of_newEdge_only_witness:
  "loop_of spare 0 [0, 1, 2, 3] \<and> 1 \<in> set [0, 1, 2, 3::nat] \<and>
   (\<exists>w'. insert_f K0 0 4 1 spare = Inr w' \<and>
          (\<forall>e. e \<noteq> 4 \<longrightarrow> arc_length_of w' e = arc_length_of spare e) \<and>
          arc_length_of w' 4 = 5 \<and> arc_length_of w' 2 = 5 \<and>
          shape_length K0 (shape_of w' 4) = 1 \<and> next_of w' 4 = Some 2)"
proof -
  have h1: "loop_of spare 0 [0, 1, 2, 3]" by code_simp
  have h2: "1 \<in> set [0, 1, 2, 3::nat]" by simp
  have v: "last_of spare 0 \<noteq> Some 1" "arc_length_of spare 1 + shape_length K0 (shape_of spare 1) = 5"
    "arc_length_of spare 2 = 5"
    by code_simp+
  obtain w' where w': "insert_f K0 0 4 1 spare = Inr w'"
      "\<forall>e. e \<noteq> 4 \<longrightarrow> arc_length_of w' e = arc_length_of spare e"
      "arc_length_of w' 4 = (if last_of spare 0 = Some 1 then 0
                 else arc_length_of spare 1 + shape_length K0 (shape_of spare 1))"
    using insert_sets_arc_length_of_newEdge_only[OF h1 h2, of K0 4] by blast
  have "case insert_f K0 0 4 1 spare of
          Inl x \<Rightarrow> False
        | Inr u \<Rightarrow> shape_length K0 (shape_of u 4) = 1 \<and> next_of u 4 = Some 2"
    by code_simp
  then have s: "shape_length K0 (shape_of w' 4) = 1 \<and> next_of w' 4 = Some 2"
    using w'(1) by simp
  show ?thesis using h1 h2 v w' s by simp
qed

lemma back_chain_snoc:
  "back_chain h (xs @ [a]) \<longleftrightarrow> back_chain h xs \<and> (xs \<noteq> [] \<longrightarrow> h a = Some (last xs))"
  by (induction h xs rule: back_chain.induct) auto

lemma chain_rev: "chain h (rev xs) = back_chain h xs"
proof (induction xs rule: rev_induct)
  case Nil
  then show ?case by simp
next
  case (snoc a xs)
  then show ?case by (auto simp: back_chain_snoc chain_Cons hd_rev)
qed

lemma arc_law_cong:
  "(\<And>e. e \<in> set xs \<Longrightarrow> arc_length_of w' e = arc_length_of w e) \<Longrightarrow> shape_of w' = shape_of w \<Longrightarrow>
   arc_law K w' xs = arc_law K w xs"
  by (induction K w xs rule: arc_law.induct) auto

lemma arc_law_nth:
  "arc_law K w xs \<Longrightarrow> 0 < i \<Longrightarrow> i < length xs \<Longrightarrow>
   arc_length_of w (xs ! i) = arc_length_of w (xs ! (i - 1)) + shape_length K (shape_of w (xs ! (i - 1)))"
proof (induction K w xs arbitrary: i rule: arc_law.induct)
  case (1 K w a b xs)
  then show ?case by (cases i) (auto simp: nth_Cons')
qed auto

lemma setArcLength_rest:
  "back_chain (prev_of s) (p # rest) \<Longrightarrow> distinct (p # rest) \<Longrightarrow> first_of s this = Some f \<Longrightarrow>
   f \<notin> set rest \<Longrightarrow>
   \<exists>s'. fold_break (setArcLength_body K this) rest s = Inr s' \<and>
        arc_law K s' (p # rest) \<and> (\<forall>e \<in> set rest. face_of s' e = Some this) \<and>
        (\<forall>e. e \<notin> set rest \<longrightarrow> arc_length_of s' e = arc_length_of s e \<and> face_of s' e = face_of s e) \<and>
        shape_of s' = shape_of s \<and> prev_of s' = prev_of s \<and> next_of s' = next_of s \<and>
        first_of s' = first_of s \<and> last_of s' = last_of s \<and>
        orientation_cache_of s' = orientation_cache_of s \<and> box_cache_of s' = box_cache_of s \<and>
        planar s' = planar s \<and> fresh s' = fresh s"
proof (induction rest arbitrary: p s)
  case Nil
  then show ?case by simp
next
  case (Cons c cs)
  let ?s1 = "set_face c (Some this)
               (set_arc_length c (arc_length_of s p + shape_length K (shape_of s p)) s)"
  have st: "setArcLength_body K this c s = Inr (?s1, False)"
    using Cons.prems by (auto simp: setArcLength_body_def)
  have "\<exists>s'. fold_break (setArcLength_body K this) cs ?s1 = Inr s' \<and>
        arc_law K s' (c # cs) \<and> (\<forall>e \<in> set cs. face_of s' e = Some this) \<and>
        (\<forall>e. e \<notin> set cs \<longrightarrow> arc_length_of s' e = arc_length_of ?s1 e \<and> face_of s' e = face_of ?s1 e) \<and>
        shape_of s' = shape_of ?s1 \<and> prev_of s' = prev_of ?s1 \<and> next_of s' = next_of ?s1 \<and>
        first_of s' = first_of ?s1 \<and> last_of s' = last_of ?s1 \<and>
        orientation_cache_of s' = orientation_cache_of ?s1 \<and> box_cache_of s' = box_cache_of ?s1 \<and>
        planar s' = planar ?s1 \<and> fresh s' = fresh ?s1"
    using Cons.prems by (intro Cons.IH) auto
  then obtain s' where s': "fold_break (setArcLength_body K this) cs ?s1 = Inr s'"
      "arc_law K s' (c # cs)" "\<forall>e \<in> set cs. face_of s' e = Some this"
      "\<forall>e. e \<notin> set cs \<longrightarrow> arc_length_of s' e = arc_length_of ?s1 e \<and> face_of s' e = face_of ?s1 e"
      "shape_of s' = shape_of ?s1" "prev_of s' = prev_of ?s1" "next_of s' = next_of ?s1"
      "first_of s' = first_of ?s1" "last_of s' = last_of ?s1"
      "orientation_cache_of s' = orientation_cache_of ?s1" "box_cache_of s' = box_cache_of ?s1"
      "planar s' = planar ?s1" "fresh s' = fresh ?s1"
    by blast
  have pc: "p \<noteq> c" "p \<notin> set cs" "c \<notin> set cs" using Cons.prems by auto
  have "arc_length_of s' c = arc_length_of s' p + shape_length K (shape_of s' p)"
    using s'(4,5) pc by simp
  then show ?case using st s' pc by auto
qed

lemma setArcLength_body_keeps:
  "setArcLength_body K this v s = Inr (s', b) \<Longrightarrow>
   next_of s' = next_of s \<and> first_of s' this = first_of s this"
  by (auto simp: setArcLength_body_def split: if_splits option.splits)

lemma setArcLength_loop:
  assumes "loop_of w this es"
  shows "\<exists>w'. setArcLength K this w = Some (Inr w') \<and>
        arc_length_of w' (hd es) = 0 \<and> arc_law K w' es \<and> (\<forall>e \<in> set es. face_of w' e = Some this) \<and>
        (\<forall>e. e \<notin> set es \<longrightarrow> arc_length_of w' e = arc_length_of w e \<and> face_of w' e = face_of w e) \<and>
        shape_of w' = shape_of w \<and> prev_of w' = prev_of w \<and> next_of w' = next_of w \<and>
        first_of w' = first_of w \<and> last_of w' = last_of w \<and>
        orientation_cache_of w' = orientation_cache_of w \<and> box_cache_of w' = box_cache_of w \<and>
        planar w' = planar w \<and> fresh w' = fresh w"
proof -
  obtain f rest where es: "es = f # rest" using assms by (cases es) (auto simp: loop_of_def)
  have fst: "first_of w this = Some f" and d: "distinct (f # rest)"
    and bc: "back_chain (prev_of w) (f # rest)"
    using assms unfolding es loop_of_def chain_rev by auto
  let ?s1 = "set_face f (Some this) (set_arc_length f 0 w)"
  have run: "setArcLength K this w = Some (fold_break (setArcLength_body K this) es w)"
    unfolding setArcLength_def
    by (rule for_of_loop[where es = es], erule setArcLength_body_keeps, rule assms)
  have st: "setArcLength_body K this f w = Inr (?s1, False)"
    using fst by (simp add: setArcLength_body_def)
  have "\<exists>s'. fold_break (setArcLength_body K this) rest ?s1 = Inr s' \<and>
        arc_law K s' (f # rest) \<and> (\<forall>e \<in> set rest. face_of s' e = Some this) \<and>
        (\<forall>e. e \<notin> set rest \<longrightarrow> arc_length_of s' e = arc_length_of ?s1 e \<and> face_of s' e = face_of ?s1 e) \<and>
        shape_of s' = shape_of ?s1 \<and> prev_of s' = prev_of ?s1 \<and> next_of s' = next_of ?s1 \<and>
        first_of s' = first_of ?s1 \<and> last_of s' = last_of ?s1 \<and>
        orientation_cache_of s' = orientation_cache_of ?s1 \<and> box_cache_of s' = box_cache_of ?s1 \<and>
        planar s' = planar ?s1 \<and> fresh s' = fresh ?s1"
    using bc d fst by (intro setArcLength_rest[where f = f]) auto
  then obtain s' where s': "fold_break (setArcLength_body K this) rest ?s1 = Inr s'"
      "arc_law K s' (f # rest)" "\<forall>e \<in> set rest. face_of s' e = Some this"
      "\<forall>e. e \<notin> set rest \<longrightarrow> arc_length_of s' e = arc_length_of ?s1 e \<and> face_of s' e = face_of ?s1 e"
      "shape_of s' = shape_of ?s1" "prev_of s' = prev_of ?s1" "next_of s' = next_of ?s1"
      "first_of s' = first_of ?s1" "last_of s' = last_of ?s1"
      "orientation_cache_of s' = orientation_cache_of ?s1" "box_cache_of s' = box_cache_of ?s1"
      "planar s' = planar ?s1" "fresh s' = fresh ?s1"
    by blast
  have "f \<notin> set rest" using d by simp
  then have a: "arc_length_of s' f = 0" "face_of s' f = Some this"
    "\<forall>e. e \<notin> set (f # rest) \<longrightarrow> arc_length_of s' e = arc_length_of w e \<and> face_of s' e = face_of w e"
    using s'(4) by simp_all
  have r: "fold_break (setArcLength_body K this) (f # rest) w = Inr s'"
    using st s'(1) by simp
  have fr: "shape_of s' = shape_of w" "prev_of s' = prev_of w" "next_of s' = next_of w"
        "first_of s' = first_of w" "last_of s' = last_of w"
        "orientation_cache_of s' = orientation_cache_of w" "box_cache_of s' = box_cache_of w"
        "planar s' = planar w" "fresh s' = fresh w"
    using s'(5-13) by simp_all
  show ?thesis unfolding run es r using a s'(2,3) fr by simp
qed

lemma loop_of_cong:
  "prev_of w' = prev_of w \<Longrightarrow> next_of w' = next_of w \<Longrightarrow> first_of w' = first_of w \<Longrightarrow>
   last_of w' = last_of w \<Longrightarrow> loop_of w' this es = loop_of w this es"
  by (simp only: loop_of_def)

text \<open>
  C2. On a face that is a loop with the traversal order \<open>es\<close>, \<open>setArcLength\<close> returns; after
  it the traversal order is still \<open>es\<close>, the first edge has arc length 0, every later edge
  has the arc length of its predecessor plus the predecessor's length, and the \<open>face\<close> of
  every edge is this face.
\<close>

theorem setArcLength_law:
  assumes "loop_of w this es"
  shows "\<exists>w'. setArcLength K this w = Some (Inr w') \<and> edges this w' = Some (Inr es) \<and>
           arc_length_of w' (es ! 0) = 0 \<and>
           (\<forall>i. 0 < i \<and> i < length es \<longrightarrow>
              arc_length_of w' (es ! i) =
                arc_length_of w' (es ! (i - 1)) + shape_length K (shape_of w' (es ! (i - 1)))) \<and>
           (\<forall>e \<in> set es. face_of w' e = Some this)"
proof -
  obtain w' where w': "setArcLength K this w = Some (Inr w')"
      "arc_length_of w' (hd es) = 0" "arc_law K w' es" "\<forall>e \<in> set es. face_of w' e = Some this"
      "prev_of w' = prev_of w" "next_of w' = next_of w" "first_of w' = first_of w" "last_of w' = last_of w"
    using setArcLength_loop[OF assms, of K] by (elim exE conjE) (rule that, assumption+)
  have "loop_of w' this es" using assms loop_of_cong[OF w'(5-8)] by blast
  then have "edges this w' = Some (Inr es)" by (rule edges_loop)
  moreover have "es \<noteq> []" using assms by (simp add: loop_of_def)
  moreover have "arc_length_of w' (es ! 0) = 0" using w'(2) \<open>es \<noteq> []\<close> by (simp add: hd_conv_nth)
  moreover have "\<forall>i. 0 < i \<and> i < length es \<longrightarrow>
              arc_length_of w' (es ! i) =
                arc_length_of w' (es ! (i - 1)) + shape_length K (shape_of w' (es ! (i - 1)))"
    using arc_law_nth[OF w'(3)] by simp
  ultimately show ?thesis using w'(1,4) by (intro exI[of _ w'] conjI)
qed

theorem setArcLength_law_witness:
  "loop_of stale 0 [0, 1, 4, 2, 3] \<and> map (arc_length_of stale) [0, 1, 4, 2, 3] = [0, 2, 5, 5, 7] \<and>
   (\<exists>w'. setArcLength K0 0 stale = Some (Inr w') \<and> edges 0 w' = Some (Inr [0, 1, 4, 2, 3]) \<and>
          map (arc_length_of w') [0, 1, 4, 2, 3] = [0, 2, 5, 6, 8] \<and>
          (\<forall>i. 0 < i \<and> i < 5 \<longrightarrow>
              arc_length_of w' ([0, 1, 4, 2, 3] ! i) =
                arc_length_of w' ([0, 1, 4, 2, 3] ! (i - 1)) +
                shape_length K0 (shape_of w' ([0, 1, 4, 2, 3] ! (i - 1)))) \<and>
          (\<forall>e \<in> set [0, 1, 4, 2, 3]. face_of w' e = Some 0))"
proof -
  have h: "loop_of stale 0 [0, 1, 4, 2, 3]" by code_simp
  have v: "map (arc_length_of stale) [0, 1, 4, 2, 3] = [0, 2, 5, 5, 7]" by code_simp
  have c: "case setArcLength K0 0 stale of
             Some (Inr u) \<Rightarrow> map (arc_length_of u) [0, 1, 4, 2, 3] = [0, 2, 5, 6, 8]
           | _ \<Rightarrow> False"
    by code_simp
  show ?thesis using setArcLength_law[OF h, of K0] h v c by auto
qed

lemma reverse_all_fields [simp]:
  "prev_of (reverse_all es w) = prev_of w"
  "next_of (reverse_all es w) = next_of w"
  "face_of (reverse_all es w) = face_of w"
  "arc_length_of (reverse_all es w) = arc_length_of w"
  "first_of (reverse_all es w) = first_of w"
  "last_of (reverse_all es w) = last_of w"
  "box_cache_of (reverse_all es w) = box_cache_of w"
  "orientation_cache_of (reverse_all es w) = orientation_cache_of w"
  "planar (reverse_all es w) = planar w"
  "fresh (reverse_all es w) = fresh w"
  by (induction es arbitrary: w; simp)+

lemma reverse_all_shape:
  "distinct es \<Longrightarrow>
   shape_of (reverse_all es w) e = (if e \<in> set es then reverse_shape (shape_of w e) else shape_of w e)"
  by (induction es arbitrary: w) auto

lemma reverse_all_snoc:
  "reverse_all (es @ [e]) w = set_shape e (reverse_shape (shape_of (reverse_all es w) e)) (reverse_all es w)"
  by (induction es arbitrary: w) auto

lemma reverse_shape_twice [simp]: "reverse_shape (reverse_shape s) = s"
  by (cases s) auto

lemma reverse_collect_rest:
  "chain (prev_of s) (rs @ [l]) \<Longrightarrow> rs \<noteq> [] \<Longrightarrow> l \<notin> set (tl rs) \<Longrightarrow> last_of s this = Some l \<Longrightarrow>
   reverse_collect this (Some (hd rs)) acc s = Some (Inr (acc @ rs, reverse_all rs s))"
proof (induction rs arbitrary: acc s)
  case Nil
  then show ?case by simp
next
  case (Cons a as)
  let ?s1 = "set_shape a (reverse_shape (shape_of s a)) s"
  show ?case
  proof (cases as)
    case Nil
    then have "prev_of s a = Some l" using Cons.prems by simp
    then show ?thesis using Nil Cons.prems
      by (subst reverse_collect.simps) (simp add: Let_def)
  next
    case (Cons b bs)
    then have pa: "prev_of s a = Some b" "b \<noteq> l" using Cons.prems by auto
    have "reverse_collect this (Some (hd as)) (acc @ [a]) ?s1 = Some (Inr ((acc @ [a]) @ as, reverse_all as ?s1))"
      using Cons.prems Cons by (intro Cons.IH) auto
    then show ?thesis using pa Cons Cons.prems(4)
      by (subst reverse_collect.simps) (simp add: Let_def)
  qed
qed

lemma reverse_collect_loop:
  assumes "loop_of w this es"
  shows "reverse_collect this (last_of w this) [] w = Some (Inr (rev es, reverse_all (rev es) w))"
proof -
  have ne: "es \<noteq> []" and d: "distinct es" and l: "last_of w this = Some (last es)"
    and c: "chain (prev_of w) (rev es)" and p: "prev_of w (hd es) = Some (last es)"
    using assms by (auto simp: loop_of_def)
  have c2: "chain (prev_of w) (rev es @ [last es])"
    using c p ne by (simp add: chain_append last_rev)
  have "last es \<notin> set (tl (rev es))"
    using d ne by (cases es rule: rev_cases) auto
  then have "reverse_collect this (Some (hd (rev es))) [] w = Some (Inr ([] @ rev es, reverse_all (rev es) w))"
    using c2 ne l by (intro reverse_collect_rest) auto
  then show ?thesis using l ne by (simp add: hd_rev)
qed

lemma reverse_empty: "isEmpty this w \<Longrightarrow> reverse K this w = Some (Inl TypeError)"
  by (simp add: reverse_def isEmpty_def bind_res_def, subst reverse_collect.simps, simp)

lemma for_of_traversal:
  assumes keeps: "\<And>v s s' b. body v s = Inr (s', b) \<Longrightarrow>
              next_of (wof s') = next_of (wof s) \<and> first_of (wof s') this = first_of (wof s) this"
    and tr: "traversal (wof s) this es"
  shows "for_of wof this body None s = Some (fold_break body es s)"
  using tr unfolding traversal_def
proof
  assume "es = [] \<and> first_of (wof s) this = None"
  then show ?thesis by (simp add: for_of_empty)
next
  assume "loop_of (wof s) this es"
  then show ?thesis by (intro for_of_loop keeps)
qed

lemma traversal_frame [simp]:
  "traversal (set_shape e s w) = traversal w"
  "traversal (set_face e v1 w) = traversal w"
  "traversal (set_arc_length e v2 w) = traversal w"
  "traversal (set_box_cache t v3 w) = traversal w"
  "traversal (set_orientation_cache t v4 w) = traversal w"
  "traversal (planar_add K e w) = traversal w"
  "traversal (planar_delete K e w) = traversal w"
  by (simp_all add: traversal_def fun_eq_iff)

lemma fold_break_pure: "fold_break (\<lambda>e a. Inr (g a e, False)) es a = Inr (foldl g a es)"
  by (induction es arbitrary: a) auto

lemma cache_box_fields [simp]:
  "shape_of (cache_box K w this es) = shape_of w"
  "prev_of (cache_box K w this es) = prev_of w"
  "next_of (cache_box K w this es) = next_of w"
  "face_of (cache_box K w this es) = face_of w"
  "arc_length_of (cache_box K w this es) = arc_length_of w"
  "first_of (cache_box K w this es) = first_of w"
  "last_of (cache_box K w this es) = last_of w"
  "orientation_cache_of (cache_box K w this es) = orientation_cache_of w"
  "planar (cache_box K w this es) = planar w"
  "fresh (cache_box K w this es) = fresh w"
  "traversal (cache_box K w this es) = traversal w"
  "loop_of (cache_box K w this es) = loop_of w"
  by (simp_all add: cache_box_def split: option.splits)

lemma box_traversal:
  assumes "traversal w this es"
  shows "box K this w = Some (Inr (face_box K w this es, cache_box K w this es))"
proof (cases "box_cache_of w this")
  case None
  have "for_of (\<lambda>_. w) this (\<lambda>edge b. Inr (box_merge K b (shape_box K (shape_of w edge)), False))
          None (box_new K) = Some (Inr (box_union K w es))"
    unfolding box_union_def
    by (subst for_of_traversal[where es = es]) (use assms in \<open>auto simp: fold_break_pure\<close>)
  then show ?thesis using None by (simp add: box_def bind_res_def face_box_def cache_box_def)
next
  case (Some b)
  then show ?thesis by (simp add: box_def face_box_def cache_box_def)
qed

lemma signedArea_traversal:
  assumes "traversal w this es"
  shows "signedArea K this w = Some (Inr (face_area K w this es, cache_box K w this es))"
proof -
  let ?w1 = "cache_box K w this es" and ?y = "box_ymin K (face_box K w this es)"
  have tr: "traversal ?w1 this es" using assms by simp
  have "for_of (\<lambda>_. ?w1) this (\<lambda>edge sArea. Inr (sArea + definiteIntegral K (shape_of ?w1 edge) ?y, False))
          None 0 = Some (Inr (integral_sum K w ?y es))"
    unfolding integral_sum_def
    by (subst for_of_traversal[where es = es]) (use tr in \<open>auto simp: fold_break_pure\<close>)
  then show ?thesis
    by (simp add: signedArea_def box_traversal[OF assms] bind_res_def face_area_def Let_def)
qed

lemma orientation_traversal:
  assumes "traversal w this es"
  shows "orientation_f K this w =
     Some (Inr (case orientation_cache_of w this of
                  Some v \<Rightarrow> (v, w)
                | None \<Rightarrow> (sign_class K (face_area K w this es),
                           set_orientation_cache this (Some (sign_class K (face_area K w this es)))
                             (cache_box K w this es))))"
  by (simp add: orientation_f_def signedArea_traversal[OF assms] bind_res_def sign_class_def Let_def
      split: option.splits)

lemma relink_more:
  "loop_of s this ds \<Longrightarrow> distinct (ds @ rest) \<Longrightarrow>
   \<exists>s'. relink K this rest s = Inr s' \<and> loop_of s' this (ds @ rest) \<and>
        shape_of s' = shape_of s \<and> face_of s' = face_of s \<and>
        orientation_cache_of s' = orientation_cache_of s \<and> box_cache_of s' = box_cache_of s \<and>
        planar s' = planar s \<and> fresh s' = fresh s"
proof (induction rest arbitrary: ds s)
  case Nil
  then show ?case by simp
next
  case (Cons e rest)
  let ?s1 = "set_arc_length e (arc_length_of s (last ds) + shape_length K (shape_of s (last ds)))
           (set_prev (hd ds) (Some e) (set_next e (Some (hd ds)) (set_last this (Some e)
             (set_next (last ds) (Some e) (set_prev e (Some (last ds)) s)))))"
  have e: "e \<notin> set ds" using Cons.prems by auto
  have st: "link_edge K this e s = Inr ?s1" using Cons.prems(1) e by (rule link_edge_more)
  have lp: "loop_of ?s1 this (ds @ [e])" using Cons.prems(1) e by (rule loop_of_snoc)
  have "\<exists>s'. relink K this rest ?s1 = Inr s' \<and> loop_of s' this ((ds @ [e]) @ rest) \<and>
        shape_of s' = shape_of ?s1 \<and> face_of s' = face_of ?s1 \<and>
        orientation_cache_of s' = orientation_cache_of ?s1 \<and> box_cache_of s' = box_cache_of ?s1 \<and>
        planar s' = planar ?s1 \<and> fresh s' = fresh ?s1"
    using lp Cons.prems(2) by (intro Cons.IH) auto
  then show ?case using st by simp
qed

lemma relink_fresh:
  assumes "first_of s this = None" "distinct rs" "rs \<noteq> []"
  shows "\<exists>s'. relink K this rs s = Inr s' \<and> loop_of s' this rs \<and>
        shape_of s' = shape_of s \<and> face_of s' = face_of s \<and>
        orientation_cache_of s' = orientation_cache_of s \<and> box_cache_of s' = box_cache_of s \<and>
        planar s' = planar s \<and> fresh s' = fresh s"
proof -
  obtain e rest where rs: "rs = e # rest" using assms(3) by (cases rs) auto
  let ?s1 = "set_arc_length e 0 (set_last this (Some e) (set_first this (Some e)
            (set_next e (Some e) (set_prev e (Some e) s))))"
  have st: "link_edge K this e s = Inr ?s1" using assms(1) by (rule link_edge_first)
  have lp: "loop_of ?s1 this [e]" by (rule loop_of_single)
  have "\<exists>s'. relink K this rest ?s1 = Inr s' \<and> loop_of s' this ([e] @ rest) \<and>
        shape_of s' = shape_of ?s1 \<and> face_of s' = face_of ?s1 \<and>
        orientation_cache_of s' = orientation_cache_of ?s1 \<and> box_cache_of s' = box_cache_of ?s1 \<and>
        planar s' = planar ?s1 \<and> fresh s' = fresh ?s1"
    using lp assms(2) rs by (intro relink_more) auto
  then show ?thesis using st rs by simp
qed

lemma reverse_loop:
  assumes "loop_of w this es"
  shows "\<exists>w'. reverse K this w = Some (Inr w') \<and> loop_of w' this (rev es) \<and>
          (\<forall>e. shape_of w' e = (if e \<in> set es then reverse_shape (shape_of w e) else shape_of w e)) \<and>
          (orientation_cache_of w this = None \<longrightarrow> orientation_cache_of w' this = None) \<and>
          (orientation_cache_of w this \<noteq> None \<longrightarrow>
             orientation_cache_of w' this = Some (sign_class K (face_area K w' this (rev es)))) \<and>
          box_cache_of w' this = (case box_cache_of w this of
                                   Some b \<Rightarrow> Some b
                                 | None \<Rightarrow> if orientation_cache_of w this = None then None
                                           else Some (box_union K w' (rev es)))"
proof -
  have ne: "es \<noteq> []" and d: "distinct es" using assms by (auto simp: loop_of_def)
  let ?w1 = "reverse_all (rev es) w"
  let ?w1e = "set_last this None (set_first this None ?w1)"
  have col: "reverse_collect this (last_of w this) [] w = Some (Inr (rev es, ?w1))"
    using assms by (rule reverse_collect_loop)
  have "\<exists>s'. relink K this (rev es) ?w1e = Inr s' \<and> loop_of s' this (rev es) \<and>
        shape_of s' = shape_of ?w1e \<and> face_of s' = face_of ?w1e \<and>
        orientation_cache_of s' = orientation_cache_of ?w1e \<and> box_cache_of s' = box_cache_of ?w1e \<and>
        planar s' = planar ?w1e \<and> fresh s' = fresh ?w1e"
    using ne d by (intro relink_fresh) auto
  then obtain w2 where w2: "relink K this (rev es) ?w1e = Inr w2" "loop_of w2 this (rev es)"
      "shape_of w2 = shape_of ?w1e" "orientation_cache_of w2 = orientation_cache_of ?w1e"
      "box_cache_of w2 = box_cache_of ?w1e"
    by (elim exE conjE) (rule that, assumption+)
  have sh: "\<And>e. shape_of w2 e = (if e \<in> set es then reverse_shape (shape_of w e) else shape_of w e)"
    using w2(3) d by (simp add: reverse_all_shape)
  have oc: "orientation_cache_of w2 this = orientation_cache_of w this"
    and bc: "box_cache_of w2 this = box_cache_of w this"
    using w2(4,5) by simp_all
  show ?thesis
  proof (cases "orientation_cache_of w this")
    case None
    then have "reverse K this w = Some (Inr w2)"
      using col w2(1) oc by (simp add: reverse_def bind_res_def)
    then show ?thesis using w2(2) sh oc bc None by (auto split: option.splits)
  next
    case (Some v0)
    let ?w3 = "set_orientation_cache this None w2"
    let ?v = "sign_class K (face_area K ?w3 this (rev es))"
    let ?w4 = "set_orientation_cache this (Some ?v)
                 (set_orientation_cache this (Some ?v) (cache_box K ?w3 this (rev es)))"
    have tr: "traversal ?w3 this (rev es)" using w2(2) by (simp add: traversal_def)
    have ori: "orientation_f K this ?w3 =
                 Some (Inr (?v, set_orientation_cache this (Some ?v) (cache_box K ?w3 this (rev es))))"
      by (simp add: orientation_traversal[OF tr])
    have r: "reverse K this w = Some (Inr ?w4)"
      using col w2(1) oc Some ori by (simp add: reverse_def bind_res_def)
    have fa: "face_area K ?w4 this (rev es) = face_area K ?w3 this (rev es)"
      by (simp add: face_area_def face_box_def integral_sum_def box_union_def cache_box_def
          split: option.splits)
    have bx: "box_cache_of ?w4 this = (case box_cache_of w this of
                 Some b \<Rightarrow> Some b | None \<Rightarrow> Some (box_union K ?w4 (rev es)))"
      using bc by (simp add: cache_box_def box_union_def split: option.splits)
    show ?thesis unfolding r using w2(2) sh Some fa bx
      by (intro exI[of _ ?w4] conjI) simp_all
  qed
qed

text \<open>
  C7. On a face that is a loop with the traversal order \<open>es\<close>, \<open>reverse\<close> returns, and so
  does a second \<open>reverse\<close>; after the two calls the traversal order from \<open>first\<close> is \<open>es\<close>
  again and every edge has the shape it had at the start, with its direction.
\<close>

theorem reverse_twice_restores_face:
  assumes "loop_of w this es"
  shows "\<exists>w1 w2. reverse K this w = Some (Inr w1) \<and> reverse K this w1 = Some (Inr w2) \<and>
           edges this w = Some (Inr es) \<and> edges this w1 = Some (Inr (rev es)) \<and>
           edges this w2 = Some (Inr es) \<and> (\<forall>e. shape_of w2 e = shape_of w e)"
proof -
  obtain w1 where w1: "reverse K this w = Some (Inr w1)" "loop_of w1 this (rev es)"
      "\<forall>e. shape_of w1 e = (if e \<in> set es then reverse_shape (shape_of w e) else shape_of w e)"
    using reverse_loop[OF assms, of K] by (elim exE conjE) (rule that, assumption+)
  obtain w2 where w2: "reverse K this w1 = Some (Inr w2)" "loop_of w2 this (rev (rev es))"
      "\<forall>e. shape_of w2 e = (if e \<in> set (rev es) then reverse_shape (shape_of w1 e) else shape_of w1 e)"
    using reverse_loop[OF w1(2), of K] by (elim exE conjE) (rule that, assumption+)
  have "\<forall>e. shape_of w2 e = shape_of w e" using w1(3) w2(3) by simp
  moreover have "edges this w = Some (Inr es)" using assms by (rule edges_loop)
  moreover have "edges this w1 = Some (Inr (rev es))" using w1(2) by (rule edges_loop)
  moreover have "edges this w2 = Some (Inr es)" using edges_loop[OF w2(2)] by simp
  ultimately show ?thesis using w1(1) w2(1) by blast
qed

theorem reverse_twice_restores_face_witness:
  "loop_of rectangle 0 [0, 1, 2, 3] \<and>
   (\<exists>w1 w2. reverse K0 0 rectangle = Some (Inr w1) \<and> reverse K0 0 w1 = Some (Inr w2) \<and>
      edges 0 rectangle = Some (Inr [0, 1, 2, 3]) \<and> edges 0 w1 = Some (Inr [3, 2, 1, 0]) \<and>
      edges 0 w2 = Some (Inr [0, 1, 2, 3]) \<and> (\<forall>e. shape_of w2 e = shape_of rectangle e) \<and>
      shape_of rectangle 0 = Segment (Point 0 0) (Point 2 0) \<and>
      shape_of w1 0 = Segment (Point 2 0) (Point 0 0))"
proof -
  have h: "loop_of rectangle 0 [0, 1, 2, 3]" by code_simp
  have s: "shape_of rectangle 0 = Segment (Point 0 0) (Point 2 0)" by code_simp
  have c: "case reverse K0 0 rectangle of
             Some (Inr u) \<Rightarrow> shape_of u 0 = Segment (Point 2 0) (Point 0 0)
           | _ \<Rightarrow> False"
    by code_simp
  show ?thesis using reverse_twice_restores_face[OF h, of K0] h s c by auto
qed

text \<open>
  C10. On an empty face \<open>reverse\<close> throws a TypeError: its first statement reads the
  \<open>shape\<close> of the absent \<open>last\<close>. On a face that is not empty (a loop) it returns a world:
  it neither throws nor runs forever.
\<close>

theorem reverse_defined_on_nonempty_face:
  assumes "well_formed w this"
  shows "(isEmpty this w \<longrightarrow> reverse K this w = Some (Inl TypeError)) \<and>
         (\<not> isEmpty this w \<longrightarrow> (\<exists>w'. reverse K this w = Some (Inr w')))"
proof (intro conjI impI)
  assume "isEmpty this w"
  then show "reverse K this w = Some (Inl TypeError)" by (rule reverse_empty)
next
  assume "\<not> isEmpty this w"
  then obtain es where "loop_of w this es" using assms by (auto simp: well_formed_iff)
  then show "\<exists>w'. reverse K this w = Some (Inr w')" using reverse_loop[of w this es K] by blast
qed

theorem reverse_defined_on_nonempty_face_witness:
  "well_formed rectangle 0 \<and> \<not> isEmpty 0 rectangle \<and>
   (\<exists>w'. reverse K0 0 rectangle = Some (Inr w')) \<and>
   well_formed empty_world 0 \<and> isEmpty 0 empty_world \<and>
   reverse K0 0 empty_world = Some (Inl TypeError)"
proof -
  have h1: "well_formed rectangle 0" and n1: "\<not> isEmpty 0 rectangle" by code_simp+
  have h2: "well_formed empty_world 0" and n2: "isEmpty 0 empty_world" by code_simp+
  show ?thesis
    using reverse_defined_on_nonempty_face[OF h1, of K0]
      reverse_defined_on_nonempty_face[OF h2, of K0] h1 h2 n1 n2 by simp
qed

lemma link_edge_cache:
  "link_edge K t e w = Inr w' \<Longrightarrow> orientation_cache_of w' = orientation_cache_of w"
  by (auto simp: link_edge_def Let_def split: option.splits)

lemma mutate_cache:
  "mutate K t m w = Inr w' \<Longrightarrow> orientation_cache_of w' = orientation_cache_of w"
proof (cases m)
  case (Append e)
  assume "mutate K t m w = Inr w'"
  then show ?thesis using Append
    by (auto simp: append_def split: sum.splits dest: link_edge_cache)
next
  case (Insert n b)
  assume "mutate K t m w = Inr w'"
  then show ?thesis using Insert
    by (auto simp: insert_f_def Let_def split: option.splits if_splits sum.splits)
next
  case (Remove e)
  assume "mutate K t m w = Inr w'"
  then show ?thesis using Remove
    by (auto simp: remove_f_def Let_def split: option.splits if_splits sum.splits)
qed

lemma setArcLength_cache:
  assumes "traversal w this es" "setArcLength K this w = Some (Inr w')"
  shows "orientation_cache_of w' = orientation_cache_of w"
  using assms(1) unfolding traversal_def
proof
  assume "es = [] \<and> first_of w this = None"
  then show ?thesis using assms(2) by (simp add: setArcLength_def for_of_empty)
next
  assume "loop_of w this es"
  then show ?thesis using setArcLength_loop[of w this es K] assms(2) by auto
qed

lemma sign_class_cases:
  "(EQ_0 K a \<longrightarrow> sign_class K a = NOT_ORIENTABLE) \<and>
   (\<not> EQ_0 K a \<and> LT K a 0 \<longrightarrow> sign_class K a = CCW) \<and>
   (\<not> EQ_0 K a \<and> \<not> LT K a 0 \<longrightarrow> sign_class K a = CW)"
  by (simp add: sign_class_def)

lemma well_formed_traversal:
  assumes "well_formed w this"
  obtains es where "traversal w this es" "isEmpty this w \<or> loop_of w this es"
  using assms unfolding well_formed_iff
proof
  assume e: "isEmpty this w"
  then have "traversal w this []" by (simp add: traversal_def isEmpty_def)
  then show ?thesis using e that by blast
next
  assume "\<exists>es. loop_of w this es"
  then obtain es where "loop_of w this es" ..
  then show ?thesis using that[of es] by (simp add: traversal_def)
qed

text \<open>
  C3. On a face that is empty or a loop: when no orientation is cached, \<open>orientation\<close>
  returns the class of the value of \<open>signedArea\<close> and caches it, so that the next call
  returns it again; the class of a value within tolerance of zero (\<open>EQ_0\<close>) is
  NOT_ORIENTABLE, of any other value that is tolerance-less than 0 (\<open>LT\<close>) CCW, of any
  remaining value CW. When an orientation is cached, \<open>orientation\<close> returns it and changes
  nothing. \<open>append\<close>, \<open>insert\<close>, \<open>remove\<close>, \<open>setArcLength\<close>, the getter \<open>box\<close> and
  \<open>signedArea\<close> leave the cache as it is; \<open>reverse\<close> leaves an empty cache empty and
  replaces a cached value by the class of the signed area of the reversed face.
\<close>

theorem orientation_classifies_and_caches:
  assumes "well_formed w this"
  shows
   "(orientation_cache_of w this = None \<longrightarrow>
       (\<exists>a w0 w1. signedArea K this w = Some (Inr (a, w0)) \<and>
                  orientation_f K this w = Some (Inr (sign_class K a, w1)) \<and>
                  orientation_cache_of w1 this = Some (sign_class K a) \<and>
                  orientation_f K this w1 = Some (Inr (sign_class K a, w1)))) \<and>
    (\<forall>v. orientation_cache_of w this = Some v \<longrightarrow> orientation_f K this w = Some (Inr (v, w))) \<and>
    (\<forall>a. (EQ_0 K a \<longrightarrow> sign_class K a = NOT_ORIENTABLE) \<and>
         (\<not> EQ_0 K a \<and> LT K a 0 \<longrightarrow> sign_class K a = CCW) \<and>
         (\<not> EQ_0 K a \<and> \<not> LT K a 0 \<longrightarrow> sign_class K a = CW)) \<and>
    (\<forall>m w2. mutate K this m w = Inr w2 \<longrightarrow>
         orientation_cache_of w2 this = orientation_cache_of w this) \<and>
    (\<forall>w2. setArcLength K this w = Some (Inr w2) \<longrightarrow>
         orientation_cache_of w2 this = orientation_cache_of w this) \<and>
    (\<forall>b w2. box K this w = Some (Inr (b, w2)) \<longrightarrow>
         orientation_cache_of w2 this = orientation_cache_of w this) \<and>
    (\<forall>a w2. signedArea K this w = Some (Inr (a, w2)) \<longrightarrow>
         orientation_cache_of w2 this = orientation_cache_of w this) \<and>
    (\<forall>w2. reverse K this w = Some (Inr w2) \<longrightarrow>
         (orientation_cache_of w this = None \<longrightarrow> orientation_cache_of w2 this = None) \<and>
         (orientation_cache_of w this \<noteq> None \<longrightarrow>
            (\<exists>a w3. signedArea K this w2 = Some (Inr (a, w3)) \<and>
                    orientation_cache_of w2 this = Some (sign_class K a))))"
proof -
  obtain es where tr: "traversal w this es" and el: "isEmpty this w \<or> loop_of w this es"
    using assms by (rule well_formed_traversal)
  show ?thesis
  proof (intro conjI allI impI)
  assume none: "orientation_cache_of w this = None"
  let ?a = "face_area K w this es"
  let ?w1 = "set_orientation_cache this (Some (sign_class K ?a)) (cache_box K w this es)"
  have "orientation_f K this ?w1 = Some (Inr (sign_class K ?a, ?w1))"
    by (simp add: orientation_f_def)
  then show "\<exists>a w0 w1. signedArea K this w = Some (Inr (a, w0)) \<and>
                  orientation_f K this w = Some (Inr (sign_class K a, w1)) \<and>
                  orientation_cache_of w1 this = Some (sign_class K a) \<and>
                  orientation_f K this w1 = Some (Inr (sign_class K a, w1))"
    using none by (simp add: signedArea_traversal[OF tr] orientation_traversal[OF tr])
next
  fix v assume "orientation_cache_of w this = Some v"
  then show "orientation_f K this w = Some (Inr (v, w))" by (simp add: orientation_f_def)
next
  fix a assume "EQ_0 K a" then show "sign_class K a = NOT_ORIENTABLE" by (simp add: sign_class_def)
next
  fix a assume "\<not> EQ_0 K a \<and> LT K a 0" then show "sign_class K a = CCW" by (simp add: sign_class_def)
next
  fix a assume "\<not> EQ_0 K a \<and> \<not> LT K a 0" then show "sign_class K a = CW" by (simp add: sign_class_def)
next
  fix m w2 assume "mutate K this m w = Inr w2"
  then show "orientation_cache_of w2 this = orientation_cache_of w this" by (simp add: mutate_cache)
next
  fix w2 assume "setArcLength K this w = Some (Inr w2)"
  then show "orientation_cache_of w2 this = orientation_cache_of w this"
    using setArcLength_cache[OF tr, of K w2] by simp
next
  fix b w2 assume "box K this w = Some (Inr (b, w2))"
  then show "orientation_cache_of w2 this = orientation_cache_of w this"
    by (auto simp: box_traversal[OF tr])
next
  fix a w2 assume "signedArea K this w = Some (Inr (a, w2))"
  then show "orientation_cache_of w2 this = orientation_cache_of w this"
    by (auto simp: signedArea_traversal[OF tr])
next
  fix w2 assume r: "reverse K this w = Some (Inr w2)" and none: "orientation_cache_of w this = None"
  have "loop_of w this es" using el r reverse_empty[of this w K] by auto
  then show "orientation_cache_of w2 this = None"
    using reverse_loop[of w this es K] r none by auto
next
  fix w2 assume r: "reverse K this w = Some (Inr w2)" and some: "orientation_cache_of w this \<noteq> None"
  have lp: "loop_of w this es" using el r reverse_empty[of this w K] by auto
  have w2: "loop_of w2 this (rev es)"
    "orientation_cache_of w2 this = Some (sign_class K (face_area K w2 this (rev es)))"
    using reverse_loop[OF lp, of K] r some by auto
  have "traversal w2 this (rev es)" using w2(1) by (simp add: traversal_def)
  then show "\<exists>a w3. signedArea K this w2 = Some (Inr (a, w3)) \<and>
                    orientation_cache_of w2 this = Some (sign_class K a)"
    using w2(2) by (simp add: signedArea_traversal)
  qed
qed

theorem orientation_classifies_and_caches_witness:
  "well_formed rectangle 0 \<and> orientation_cache_of rectangle 0 = None \<and>
   (\<exists>w0 w1. signedArea K0 0 rectangle = Some (Inr (- 6, w0)) \<and>
            orientation_f K0 0 rectangle = Some (Inr (CCW, w1)) \<and>
            orientation_cache_of w1 0 = Some CCW) \<and>
   well_formed oriented 0 \<and> orientation_cache_of oriented 0 = Some CCW \<and>
   orientation_f K0 0 oriented = Some (Inr (CCW, oriented)) \<and>
   (\<exists>w2. mutate K0 0 (Remove 2) oriented = Inr w2 \<and> orientation_cache_of w2 0 = Some CCW) \<and>
   (\<exists>w2. reverse K0 0 oriented = Some (Inr w2) \<and> orientation_cache_of w2 0 = Some CW)"
proof -
  have h1: "well_formed rectangle 0" and n1: "orientation_cache_of rectangle 0 = None"
    by code_simp+
  have h2: "well_formed oriented 0" and n2: "orientation_cache_of oriented 0 = Some CCW"
    by code_simp+
  have a: "map_option (map_sum id fst) (signedArea K0 0 rectangle) = Some (Inr (- 6))"
    by code_simp
  have c: "sign_class K0 (- 6) = CCW" by code_simp
  have m: "case mutate K0 0 (Remove 2) oriented of Inl x \<Rightarrow> False | Inr u \<Rightarrow> True"
    by code_simp
  have r: "case reverse K0 0 oriented of
             Some (Inr u) \<Rightarrow> orientation_cache_of u 0 = Some CW
           | _ \<Rightarrow> False"
    by code_simp
  note t1 = orientation_classifies_and_caches[OF h1, of K0]
  note t2 = orientation_classifies_and_caches[OF h2, of K0]
  have p1: "\<exists>w0 w1. signedArea K0 0 rectangle = Some (Inr (- 6, w0)) \<and>
            orientation_f K0 0 rectangle = Some (Inr (CCW, w1)) \<and>
            orientation_cache_of w1 0 = Some CCW"
    using t1 n1 a c by auto
  have p2: "orientation_f K0 0 oriented = Some (Inr (CCW, oriented))" using t2 n2 by blast
  obtain u where u: "mutate K0 0 (Remove 2) oriented = Inr u"
    using m by (cases "mutate K0 0 (Remove 2) oriented") auto
  have "orientation_cache_of u 0 = orientation_cache_of oriented 0" using t2 u by blast
  then have p3: "\<exists>w2. mutate K0 0 (Remove 2) oriented = Inr w2 \<and> orientation_cache_of w2 0 = Some CCW"
    using u n2 by auto
  have p4: "\<exists>w2. reverse K0 0 oriented = Some (Inr w2) \<and> orientation_cache_of w2 0 = Some CW"
    using r by (auto split: option.splits sum.splits)
  show ?thesis using h1 n1 p1 h2 n2 p2 p3 p4 by (intro conjI)
qed

lemma new_Edge_fields [simp]:
  "fst (new_Edge s w) = fresh w"
  "shape_of (snd (new_Edge s w)) = (shape_of w)(fresh w := s)"
  "prev_of (snd (new_Edge s w)) = (prev_of w)(fresh w := None)"
  "next_of (snd (new_Edge s w)) = (next_of w)(fresh w := None)"
  "face_of (snd (new_Edge s w)) = (face_of w)(fresh w := None)"
  "arc_length_of (snd (new_Edge s w)) = (arc_length_of w)(fresh w := 0)"
  "first_of (snd (new_Edge s w)) = first_of w"
  "last_of (snd (new_Edge s w)) = last_of w"
  "box_cache_of (snd (new_Edge s w)) = box_cache_of w"
  "orientation_cache_of (snd (new_Edge s w)) = orientation_cache_of w"
  "planar (snd (new_Edge s w)) = planar w"
  "fresh (snd (new_Edge s w)) = Suc (fresh w)"
  by (simp_all add: new_Edge_def shape_of_def prev_of_def next_of_def face_of_def arc_length_of_def
      first_of_def last_of_def box_cache_of_def orientation_cache_of_def fun_eq_iff)

lemma loop_of_new_Edge:
  assumes "\<forall>e \<in> set es. e < fresh w"
  shows "loop_of (snd (new_Edge s w)) this es = loop_of w this es"
proof -
  have n: "fresh w \<notin> set es" "fresh w \<notin> set (rev es)" using assms by auto
  show ?thesis
  proof (cases "es = []")
    case True
    then show ?thesis by (simp add: loop_of_def)
  next
    case False
    then have "hd es \<noteq> fresh w" "last es \<noteq> fresh w"
      using n(1) hd_in_set[of es] last_in_set[of es] by metis+
    then show ?thesis using n by (simp add: loop_of_def chain_upd_notin)
  qed
qed

lemma append_traversal:
  assumes "traversal w this es" "e \<notin> set es"
  shows "\<exists>w'. append K this e w = Inr w' \<and> loop_of w' this (es @ [e]) \<and>
          shape_of w' = shape_of w \<and> fresh w' = fresh w \<and>
          box_cache_of w' = box_cache_of w \<and> orientation_cache_of w' = orientation_cache_of w"
  using assms(1) unfolding traversal_def
proof
  assume "es = [] \<and> first_of w this = None"
  then show ?thesis using loop_of_single[of e 0 this w]
    by (simp add: append_def link_edge_first)
next
  assume "loop_of w this es"
  then show ?thesis using loop_of_snoc[of w this es e] assms(2)
    by (simp add: append_def link_edge_more)
qed

lemma shapes2face_traversal:
  "traversal w this es \<Longrightarrow> \<forall>e \<in> set es. e < fresh w \<Longrightarrow>
   \<exists>w'. shapes2face K this shapes w = Inr w' \<and>
        traversal w' this (es @ [fresh w ..< fresh w + length shapes]) \<and>
        (\<forall>i < length shapes. shape_of w' (fresh w + i) = shapes ! i) \<and>
        (\<forall>e < fresh w. shape_of w' e = shape_of w e) \<and>
        fresh w' = fresh w + length shapes \<and>
        box_cache_of w' = box_cache_of w \<and> orientation_cache_of w' = orientation_cache_of w"
proof (induction shapes arbitrary: w es)
  case Nil
  then show ?case by simp
next
  case (Cons s shapes)
  let ?w1 = "snd (new_Edge s w)"
  have tr1: "traversal ?w1 this es"
    using Cons.prems by (auto simp: traversal_def loop_of_new_Edge)
  have nin: "fresh w \<notin> set es" using Cons.prems(2) by auto
  obtain w2 where w2: "append K this (fresh w) ?w1 = Inr w2" "loop_of w2 this (es @ [fresh w])"
      "shape_of w2 = shape_of ?w1" "fresh w2 = fresh ?w1"
      "box_cache_of w2 = box_cache_of ?w1" "orientation_cache_of w2 = orientation_cache_of ?w1"
    using append_traversal[OF tr1 nin, of K] by (elim exE conjE) (rule that, assumption+)
  have tr2: "traversal w2 this (es @ [fresh w])" using w2(2) by (simp add: traversal_def)
  have lt: "\<forall>e \<in> set (es @ [fresh w]). e < fresh w2" using Cons.prems(2) w2(4) by auto
  obtain w' where w': "shapes2face K this shapes w2 = Inr w'"
      "traversal w' this ((es @ [fresh w]) @ [fresh w2 ..< fresh w2 + length shapes])"
      "\<forall>i < length shapes. shape_of w' (fresh w2 + i) = shapes ! i"
      "\<forall>e < fresh w2. shape_of w' e = shape_of w2 e"
      "fresh w' = fresh w2 + length shapes"
      "box_cache_of w' = box_cache_of w2" "orientation_cache_of w' = orientation_cache_of w2"
    using Cons.IH[OF tr2 lt] by (elim exE conjE) (rule that, assumption+)
  have f2: "fresh w2 = Suc (fresh w)" using w2(4) by simp
  have l0: "[fresh w ..< fresh w + length (s # shapes)] =
            fresh w # [Suc (fresh w) ..< Suc (fresh w) + length shapes]"
    by (subst upt_rec) simp
  have l: "(es @ [fresh w]) @ [fresh w2 ..< fresh w2 + length shapes] =
           es @ [fresh w ..< fresh w + length (s # shapes)]"
    unfolding f2 l0 by simp
  have sh: "\<forall>i < length (s # shapes). shape_of w' (fresh w + i) = (s # shapes) ! i"
  proof (intro allI impI)
    fix i assume i: "i < length (s # shapes)"
    show "shape_of w' (fresh w + i) = (s # shapes) ! i"
    proof (cases i)
      case 0
      then show ?thesis using w'(4) w2(3) f2 by simp
    next
      case (Suc j)
      then show ?thesis using w'(3) i f2 by simp
    qed
  qed
  have old: "\<forall>e < fresh w. shape_of w' e = shape_of w e" using w'(4) w2(3) f2 by simp
  have run: "shapes2face K this (s # shapes) w = Inr w'"
    using w2(1) w'(1) by (simp add: split_beta)
  show ?case
    using run w'(2) sh old w'(5) f2 w'(6,7) w2(5,6) unfolding l
    by (intro exI[of _ w'] conjI) simp_all
qed

lemma init_face_fields [simp]:
  "shape_of (init_face this w) = shape_of w"
  "prev_of (init_face this w) = prev_of w"
  "next_of (init_face this w) = next_of w"
  "face_of (init_face this w) = face_of w"
  "arc_length_of (init_face this w) = arc_length_of w"
  "first_of (init_face this w) = (first_of w)(this := None)"
  "last_of (init_face this w) = (last_of w)(this := None)"
  "box_cache_of (init_face this w) = (box_cache_of w)(this := None)"
  "orientation_cache_of (init_face this w) = (orientation_cache_of w)(this := None)"
  "planar (init_face this w) = planar w"
  "fresh (init_face this w) = fresh w"
  by (simp_all add: init_face_def new_face_def shape_of_def prev_of_def next_of_def face_of_def
      arc_length_of_def first_of_def last_of_def box_cache_of_def orientation_cache_of_def fun_eq_iff)

lemma construct_box:
  "\<exists>w'. Face_constructor K this [ABox xmin ymin xmax ymax] w = Some (Inr w') \<and>
     loop_of w' this [fresh w, fresh w + 1, fresh w + 2, fresh w + 3] \<and>
     shape_of w' (fresh w) = Segment (Point xmin ymin) (Point xmax ymin) \<and>
     shape_of w' (fresh w + 1) = Segment (Point xmax ymin) (Point xmax ymax) \<and>
     shape_of w' (fresh w + 2) = Segment (Point xmax ymax) (Point xmin ymax) \<and>
     shape_of w' (fresh w + 3) = Segment (Point xmin ymax) (Point xmin ymin) \<and>
     box_cache_of w' this = None \<and> orientation_cache_of w' this = None"
proof -
  let ?shapes = "[Segment (Point xmin ymin) (Point xmax ymin),
                  Segment (Point xmax ymin) (Point xmax ymax),
                  Segment (Point xmax ymax) (Point xmin ymax),
                  Segment (Point xmin ymax) (Point xmin ymin)]"
  let ?w0 = "init_face this w"
  have tr: "traversal ?w0 this []" by (simp add: traversal_def)
  have nil: "\<forall>e \<in> set []. e < fresh ?w0" by simp
  obtain w' where w': "shapes2face K this ?shapes ?w0 = Inr w'"
      "traversal w' this ([] @ [fresh ?w0 ..< fresh ?w0 + length ?shapes])"
      "\<forall>i < length ?shapes. shape_of w' (fresh ?w0 + i) = ?shapes ! i"
      "box_cache_of w' = box_cache_of ?w0" "orientation_cache_of w' = orientation_cache_of ?w0"
    using shapes2face_traversal[OF tr nil, of K ?shapes]
    by (elim exE conjE) (rule that, assumption+)
  have l: "[fresh w ..< fresh w + 4] = [fresh w, fresh w + 1, fresh w + 2, fresh w + 3]"
    by (simp add: upt_rec)
  have lp: "loop_of w' this [fresh w, fresh w + 1, fresh w + 2, fresh w + 3]"
    using w'(2) unfolding traversal_def by (simp add: l numeral_3_eq_3)
  have s: "shape_of w' (fresh w + 0) = ?shapes ! 0" "shape_of w' (fresh w + 1) = ?shapes ! 1"
    "shape_of w' (fresh w + 2) = ?shapes ! 2" "shape_of w' (fresh w + 3) = ?shapes ! 3"
    using w'(3)[rule_format, of 0] w'(3)[rule_format, of 1] w'(3)[rule_format, of 2]
      w'(3)[rule_format, of 3] by simp_all
  have c: "Face_constructor K this [ABox xmin ymin xmax ymax] w = Some (Inr w')"
    using w'(1) by (simp add: Face_constructor_def)
  show ?thesis using c lp s w'(4,5) by simp
qed

lemma box_face_area:
  fixes xmin :: "'n::linordered_field"
  assumes "segment_model K tol"
    and "shape_of w a = Segment (Point xmin ymin) (Point xmax ymin)"
    and "shape_of w b = Segment (Point xmax ymin) (Point xmax ymax)"
    and "shape_of w c = Segment (Point xmax ymax) (Point xmin ymax)"
    and "shape_of w d = Segment (Point xmin ymax) (Point xmin ymin)"
  shows "integral_sum K w y [a, b, c, d] = - ((xmax - xmin) * (ymax - ymin))"
proof -
  have di: "\<And>p q y. definiteIntegral K (Segment p q) y = segment_integral (Segment p q) y"
    using assms(1) by (simp add: segment_model_def)
  show ?thesis using assms(2-5) by (simp add: integral_sum_def di field_simps)
qed

lemma segment_sign_class:
  fixes a :: "'n::linordered_field"
  assumes "segment_model K tol" "tol < a"
  shows "sign_class K (- a) = CCW"
proof -
  have "EQ_0 K (- a) \<longleftrightarrow> \<bar>- a\<bar> < tol" "LT K (- a) 0 \<longleftrightarrow> - a - 0 < - tol"
    using assms(1) by (simp_all add: segment_model_def)
  then show ?thesis using assms(2) by (simp add: sign_class_def)
qed

text \<open>
  C4 (as amended). The constructor called with a box returns a face of exactly four
  straight segments with the vertex walk (xmin,ymin), (xmax,ymin), (xmax,ymax), (xmin,ymax)
  and back. With the segment operations modelled from the spec, its signed area is
  \<open>- (xmax - xmin) * (ymax - ymin)\<close>, and \<open>orientation\<close> answers CCW whenever the area of the
  box exceeds the tolerance: the loop is counter-clockwise, as the comment in the
  constructor says.
\<close>

theorem box_face_is_counterclockwise:
  fixes xmin :: "'n::linordered_field"
  assumes "segment_model K tol"
  shows "\<exists>w'. Face_constructor K this [ABox xmin ymin xmax ymax] w = Some (Inr w') \<and>
           edges this w' = Some (Inr [fresh w, fresh w + 1, fresh w + 2, fresh w + 3]) \<and>
           size_f this w' = Some (Inr 4) \<and>
           map (shape_of w') [fresh w, fresh w + 1, fresh w + 2, fresh w + 3] =
             [Segment (Point xmin ymin) (Point xmax ymin),
              Segment (Point xmax ymin) (Point xmax ymax),
              Segment (Point xmax ymax) (Point xmin ymax),
              Segment (Point xmin ymax) (Point xmin ymin)] \<and>
           (\<exists>w1. signedArea K this w' = Some (Inr (- ((xmax - xmin) * (ymax - ymin)), w1))) \<and>
           (tol < (xmax - xmin) * (ymax - ymin) \<longrightarrow>
              (\<exists>w2. orientation_f K this w' = Some (Inr (CCW, w2))))"
proof -
  let ?es = "[fresh w, fresh w + 1, fresh w + 2, fresh w + 3]"
  obtain w' where w': "Face_constructor K this [ABox xmin ymin xmax ymax] w = Some (Inr w')"
     "loop_of w' this ?es"
     "shape_of w' (fresh w) = Segment (Point xmin ymin) (Point xmax ymin)"
     "shape_of w' (fresh w + 1) = Segment (Point xmax ymin) (Point xmax ymax)"
     "shape_of w' (fresh w + 2) = Segment (Point xmax ymax) (Point xmin ymax)"
     "shape_of w' (fresh w + 3) = Segment (Point xmin ymax) (Point xmin ymin)"
     "box_cache_of w' this = None" "orientation_cache_of w' this = None"
    using construct_box[of K this xmin ymin xmax ymax w] by (elim exE conjE) (rule that, assumption+)
  have tr: "traversal w' this ?es" using w'(2) by (simp add: traversal_def)
  have ar: "face_area K w' this ?es = - ((xmax - xmin) * (ymax - ymin))"
    unfolding face_area_def by (rule box_face_area[OF assms w'(3-6)])
  have e: "edges this w' = Some (Inr ?es)" using w'(2) by (rule edges_loop)
  have s: "size_f this w' = Some (Inr 4)" using size_f_loop[OF w'(2)] by simp
  have sa: "\<exists>w1. signedArea K this w' = Some (Inr (- ((xmax - xmin) * (ymax - ymin)), w1))"
    unfolding signedArea_traversal[OF tr] ar by blast
  have ori: "tol < (xmax - xmin) * (ymax - ymin) \<longrightarrow>
              (\<exists>w2. orientation_f K this w' = Some (Inr (CCW, w2)))"
    unfolding orientation_traversal[OF tr] ar w'(8)
    by (simp add: segment_sign_class[OF assms])
  have m: "map (shape_of w') ?es =
             [Segment (Point xmin ymin) (Point xmax ymin),
              Segment (Point xmax ymin) (Point xmax ymax),
              Segment (Point xmax ymax) (Point xmin ymax),
              Segment (Point xmin ymax) (Point xmin ymin)]"
    unfolding list.map w'(3-6) by (rule refl)
  show ?thesis using w'(1) e s m sa ori by - (rule exI[of _ w'], intro conjI, assumption+)
qed

lemma segment_model_K0: "segment_model K0 (1 / 1000000)"
  by (simp add: segment_model_def K0_def segment_collab_def)

theorem box_face_is_counterclockwise_witness:
  "segment_model K0 (1 / 1000000) \<and>
   (\<exists>w'. Face_constructor K0 0 [ABox 0 0 2 3] empty_world = Some (Inr w') \<and>
          edges 0 w' = Some (Inr [0, 1, 2, 3]) \<and> size_f 0 w' = Some (Inr 4) \<and>
          map (shape_of w') [0, 1, 2, 3] =
             [Segment (Point 0 0) (Point 2 0), Segment (Point 2 0) (Point 2 3),
              Segment (Point 2 3) (Point 0 3), Segment (Point 0 3) (Point 0 0)] \<and>
          (\<exists>w1. signedArea K0 0 w' = Some (Inr (- 6, w1))) \<and>
          (\<exists>w2. orientation_f K0 0 w' = Some (Inr (CCW, w2))))"
proof -
  have g: "[fresh empty_world, fresh empty_world + 1, fresh empty_world + 2, fresh empty_world + 3]
           = [0, 1, 2, 3]"
    by (simp add: empty_world_def)
  have t: "(1 / 1000000 :: rat) < (2 - 0) * (3 - 0)" and a: "- ((2 - 0) * (3 - 0)) = (- 6 :: rat)"
    by simp_all
  note th = box_face_is_counterclockwise[OF segment_model_K0, of 0 0 0 2 3 empty_world, unfolded g a]
  from th obtain w' where w':
    "Face_constructor K0 0 [ABox 0 0 2 3] empty_world = Some (Inr w') \<and>
          edges 0 w' = Some (Inr [0, 1, 2, 3]) \<and> size_f 0 w' = Some (Inr 4) \<and>
          map (shape_of w') [0, 1, 2, 3] =
             [Segment (Point 0 0) (Point 2 0), Segment (Point 2 0) (Point 2 3),
              Segment (Point 2 3) (Point 0 3), Segment (Point 0 3) (Point 0 0)] \<and>
          (\<exists>w1. signedArea K0 0 w' = Some (Inr (- 6, w1))) \<and>
          ((1 / 1000000 :: rat) < (2 - 0) * (3 - 0) \<longrightarrow>
             (\<exists>w2. orientation_f K0 0 w' = Some (Inr (CCW, w2))))" ..
  then have X: "Face_constructor K0 0 [ABox 0 0 2 3] empty_world = Some (Inr w') \<and>
          edges 0 w' = Some (Inr [0, 1, 2, 3]) \<and> size_f 0 w' = Some (Inr 4) \<and>
          map (shape_of w') [0, 1, 2, 3] =
             [Segment (Point 0 0) (Point 2 0), Segment (Point 2 0) (Point 2 3),
              Segment (Point 2 3) (Point 0 3), Segment (Point 0 3) (Point 0 0)] \<and>
          (\<exists>w1. signedArea K0 0 w' = Some (Inr (- 6, w1))) \<and>
          (\<exists>w2. orientation_f K0 0 w' = Some (Inr (CCW, w2)))"
    using t by (elim conjE) (intro conjI, (assumption | erule (1) mp)+)
  show ?thesis by (rule conjI[OF segment_model_K0], rule exI[of _ w'], rule X)
qed

text \<open>
  The claim calls the loop clockwise. For the box from (0,0) to (2,3) the code answers CCW.
\<close>

theorem box_face_clockwise_counterexample:
  "constructed_orientation K0 0 [ABox 0 0 2 3] empty_world = Some (Inr CCW) \<and>
   constructed_orientation K0 0 [ABox 0 0 2 3] empty_world \<noteq> Some (Inr CW)"
  by code_simp

lemma name_prop_defined: "v \<noteq> ENullish \<Longrightarrow> \<exists>n. name_prop K v = Inr n"
  by (cases v) auto

lemma every_named_eq:
  "every_named K vs =
     (if reaches_nullish K vs then Inl TypeError else Inr (list_all (recognized K) vs))"
proof (induction vs)
  case Nil
  then show ?case by (simp add: reaches_nullish_def)
next
  case (Cons v vs)
  show ?case
  proof (cases "v = ENullish")
    case True
    then show ?thesis by (simp add: reaches_nullish_def recognized_def)
  next
    case False
    then obtain n where n: "name_prop K v = Inr n" using name_prop_defined by blast
    have rec: "recognized K v \<longleftrightarrow> n = Some ''segment'' \<or> n = Some ''arc''"
      by (simp add: recognized_def n)
    have step: "every_named K (v # vs) = (if recognized K v then every_named K vs else Inr False)"
      using n rec by simp
    have rn: "reaches_nullish K (v # vs) = (if recognized K v then reaches_nullish K vs else False)"
      using False by (cases v) (simp_all add: reaches_nullish_def)
    show ?thesis unfolding step rn using Cons by simp
  qed
qed

text \<open>
  C9 (as amended). The constructor called with a non-empty array whose elements are not
  all points, not all segments or arcs and not all recognized serialized records returns an
  empty face (\<open>isEmpty\<close> true, \<open>size\<close> 0) and throws nothing, provided the test of the names
  does not reach a null or undefined element.
\<close>

theorem unrecognized_array_gives_empty_face:
  assumes "shapes \<noteq> []" and "\<not> list_all is_Point shapes" and "\<not> list_all is_Shape shapes"
    and "\<not> list_all (recognized K) shapes" and "\<not> reaches_nullish K shapes"
  shows "\<exists>w'. Face_constructor K this [AArray shapes] w = Some (Inr w') \<and>
              isEmpty this w' \<and> size_f this w' = Some (Inr 0)"
proof -
  have "every_named K shapes = Inr False" using assms(4,5) by (simp add: every_named_eq)
  then have "Face_constructor K this [AArray shapes] w = Some (Inr (init_face this w))"
    using assms(1-3) by (simp add: Face_constructor_def)
  moreover have "isEmpty this (init_face this w)" by (simp add: isEmpty_def)
  moreover have "size_f this (init_face this w) = Some (Inr 0)" by (simp add: size_f_empty)
  ultimately show ?thesis by blast
qed

theorem unrecognized_array_gives_empty_face_witness:
  "[EObject (Some ''circle'') (), ENullish] \<noteq> [] \<and>
   \<not> list_all is_Point [EObject (Some ''circle'') (), ENullish :: (rat, unit) elem] \<and>
   \<not> list_all is_Shape [EObject (Some ''circle'') (), ENullish :: (rat, unit) elem] \<and>
   \<not> list_all (recognized K0) [EObject (Some ''circle'') (), ENullish] \<and>
   \<not> reaches_nullish K0 [EObject (Some ''circle'') (), ENullish] \<and>
   (\<exists>w'. Face_constructor K0 0 [AArray [EObject (Some ''circle'') (), ENullish]] empty_world
            = Some (Inr w') \<and>
         isEmpty 0 w' \<and> size_f 0 w' = Some (Inr 0))"
proof -
  have h1: "[EObject (Some ''circle'') (), ENullish :: (rat, unit) elem] \<noteq> []" by simp
  have h2: "\<not> list_all is_Point [EObject (Some ''circle'') (), ENullish :: (rat, unit) elem]" by simp
  have h3: "\<not> list_all is_Shape [EObject (Some ''circle'') (), ENullish :: (rat, unit) elem]" by simp
  have h4: "\<not> list_all (recognized K0) [EObject (Some ''circle'') (), ENullish]"
    by (simp add: recognized_def)
  have h5: "\<not> reaches_nullish K0 [EObject (Some ''circle'') (), ENullish]"
    by (simp add: reaches_nullish_def recognized_def)
  show ?thesis
    using unrecognized_array_gives_empty_face[OF h1 h2 h3 h4 h5, of 0 empty_world] h1 h2 h3 h4 h5
    by blast
qed

text \<open>
  The claim as it is written covers the array \<open>[null]\<close>: it is not empty, its element is no
  point, no segment or arc and no recognized record. On it the test \<open>shape.name\<close> throws.
\<close>

theorem unrecognized_array_counterexample:
  "[ENullish :: (rat, unit) elem] \<noteq> [] \<and>
   \<not> list_all is_Point [ENullish :: (rat, unit) elem] \<and>
   \<not> list_all is_Shape [ENullish :: (rat, unit) elem] \<and>
   \<not> list_all (recognized K0) [ENullish] \<and>
   Face_constructor K0 0 [AArray [ENullish]] empty_world = Some (Inl TypeError)"
  by (simp add: recognized_def Face_constructor_def)

lemma points_loop_eq:
  "points_loop K w e1 e2 ex ip acc =
     acc @ (if ex then take 1 (filter (\<lambda>pt. \<not> joint K w e1 e2 pt) ip)
            else filter (\<lambda>pt. \<not> joint K w e1 e2 pt) ip)"
  by (induction ip arbitrary: acc) (auto simp: joint_def)

lemma until_hit_append:
  "until_hit hit (xs @ ys) =
     (if \<exists>x \<in> set xs. hit x then until_hit hit xs else xs @ until_hit hit ys)"
  by (induction xs) auto

lemma until_hit_none: "\<forall>x \<in> set xs. \<not> hit x \<Longrightarrow> until_hit hit xs = xs"
  by (induction xs) auto

lemma candidates_loop_step:
  "candidates_loop K w e1 ex (e2 # resp) (pts, calls) =
     (if skipped w e1 e2 then candidates_loop K w e1 ex resp (pts, calls)
      else if (pts @ (if ex then take 1 (kept K w (e1, e2)) else kept K w (e1, e2))) \<noteq> [] \<and> ex
           then (pts @ take 1 (kept K w (e1, e2)), calls @ [(e1, e2)])
           else candidates_loop K w e1 ex resp
                  (pts @ (if ex then take 1 (kept K w (e1, e2)) else kept K w (e1, e2)),
                   calls @ [(e1, e2)]))"
  by (auto simp: skipped_def kept_def Let_def points_loop_eq)

lemma candidates_loop_all:
  "candidates_loop K w e1 False resp (pts, calls) =
     (pts @ concat (map (kept K w) (filter (\<lambda>p. \<not> skipped w (fst p) (snd p)) (map (Pair e1) resp))),
      calls @ filter (\<lambda>p. \<not> skipped w (fst p) (snd p)) (map (Pair e1) resp))"
  by (induction resp arbitrary: pts calls)
     (simp_all add: candidates_loop_step del: candidates_loop.simps(2))

lemma take1_empty: "take (Suc 0) xs = [] \<longleftrightarrow> xs = []"
  by (cases xs) auto

lemma candidates_loop_first:
  "candidates_loop K w e1 True resp ([], calls) =
     (take 1 (concat (map (kept K w) (filter (\<lambda>p. \<not> skipped w (fst p) (snd p)) (map (Pair e1) resp)))),
      calls @ until_hit (\<lambda>p. kept K w p \<noteq> [])
                (filter (\<lambda>p. \<not> skipped w (fst p) (snd p)) (map (Pair e1) resp)))"
proof (induction resp arbitrary: calls)
  case Nil
  then show ?case by simp
next
  case (Cons e2 resp)
  show ?case
  proof (cases "kept K w (e1, e2)")
    case Nil
    then show ?thesis using Cons[of calls] Cons[of "calls @ [(e1, e2)]"]
      by (simp add: candidates_loop_step del: candidates_loop.simps(2))
  next
    case (Cons pt pts)
    then show ?thesis using Cons.IH[of calls]
      by (simp add: candidates_loop_step del: candidates_loop.simps(2))
  qed
qed

lemma computed_Cons:
  "computed K w (e # es) =
     filter (\<lambda>p. \<not> skipped w (fst p) (snd p))
       (map (Pair e) (set_search K (planar w) (shape_box K (shape_of w e)))) @ computed K w es"
  by (simp add: computed_def candidates_def)

lemma scan_all:
  "fold_break (getSelfIntersections_body K w False) es (pts, calls) =
     Inr (pts @ concat (map (kept K w) (computed K w es)), calls @ computed K w es)"
proof (induction es arbitrary: pts calls)
  case Nil
  then show ?case by (simp add: computed_def candidates_def)
next
  case (Cons e es)
  let ?ps = "filter (\<lambda>p. \<not> skipped w (fst p) (snd p))
               (map (Pair e) (set_search K (planar w) (shape_box K (shape_of w e))))"
  have st: "getSelfIntersections_body K w False e (pts, calls) =
          Inr ((pts @ concat (map (kept K w) ?ps), calls @ ?ps), False)"
    by (simp add: getSelfIntersections_body_def Let_def candidates_loop_all)
  show ?case
    unfolding fold_break.simps st computed_Cons
    by (simp add: Cons[of "pts @ concat (map (kept K w) ?ps)" "calls @ ?ps"])
qed

lemma concat_kept_empty:
  "concat (map (kept K w) ps) = [] \<longleftrightarrow> (\<forall>p \<in> set ps. \<not> kept K w p \<noteq> [])"
  by (induction ps) auto

lemma take1_append: "xs \<noteq> [] \<Longrightarrow> take (Suc 0) (xs @ ys) = take (Suc 0) xs"
  by (cases xs) auto

lemma scan_first:
  "fold_break (getSelfIntersections_body K w True) es ([], calls) =
     Inr (take 1 (concat (map (kept K w) (computed K w es))),
          calls @ until_hit (\<lambda>p. kept K w p \<noteq> []) (computed K w es))"
proof (induction es arbitrary: calls)
  case Nil
  then show ?case by (simp add: computed_def candidates_def)
next
  case (Cons e es)
  let ?ps = "filter (\<lambda>p. \<not> skipped w (fst p) (snd p))
               (map (Pair e) (set_search K (planar w) (shape_box K (shape_of w e))))"
  let ?hit = "\<lambda>p. kept K w p \<noteq> []"
  have st: "getSelfIntersections_body K w True e ([], calls) =
          Inr ((take 1 (concat (map (kept K w) ?ps)), calls @ until_hit ?hit ?ps),
               take 1 (concat (map (kept K w) ?ps)) \<noteq> [])"
    by (simp add: getSelfIntersections_body_def Let_def candidates_loop_first)
  show ?case
  proof (cases "concat (map (kept K w) ?ps) = []")
    case True
    then have nh: "\<forall>p \<in> set ?ps. \<not> ?hit p" by (simp only: concat_kept_empty)
    have "\<not> (\<exists>p \<in> set ?ps. ?hit p)" using nh by blast
    then have u: "until_hit ?hit (?ps @ computed K w es) = ?ps @ until_hit ?hit (computed K w es)"
      by (simp only: until_hit_append if_False)
    have u1: "until_hit ?hit ?ps = ?ps" using nh by (rule until_hit_none)
    have c0: "take 1 (concat (map (kept K w) ?ps)) = []" using True by simp
    have c1: "concat (map (kept K w) (?ps @ computed K w es)) = concat (map (kept K w) (computed K w es))"
      using True by simp
    show ?thesis
      unfolding fold_break.simps st computed_Cons u c0 c1 u1
      by (simp add: Cons[of "calls @ ?ps"])
  next
    case False
    then have "\<exists>p \<in> set ?ps. ?hit p" by (simp only: concat_kept_empty) blast
    then have u: "until_hit ?hit (?ps @ computed K w es) = until_hit ?hit ?ps"
      by (simp only: until_hit_append if_True)
    have c0: "take 1 (concat (map (kept K w) ?ps)) \<noteq> []" using False by (simp add: take1_empty)
    have c1: "take 1 (concat (map (kept K w) (?ps @ computed K w es))) =
              take 1 (concat (map (kept K w) ?ps))"
      using take1_append[OF False, of "concat (map (kept K w) (computed K w es))"]
      by (simp only: map_append concat_append One_nat_def)
    show ?thesis
      unfolding fold_break.simps st computed_Cons u c1
      using c0 by simp
  qed
qed

lemma getSelfIntersections_body_keeps:
  "getSelfIntersections_body K w ex v s = Inr (s', b) \<Longrightarrow>
   next_of ((\<lambda>_. w) s') = next_of ((\<lambda>_. w) s) \<and>
   first_of ((\<lambda>_. w) s') this = first_of ((\<lambda>_. w) s) this"
  by simp

lemma getSelfIntersections_traversal:
  assumes "traversal w fc es"
  shows "getSelfIntersections K fc False w = Some (Inr (self_points K w es, computed K w es))"
    and "getSelfIntersections K fc True w =
           Some (Inr (take 1 (self_points K w es),
                      until_hit (\<lambda>p. kept K w p \<noteq> []) (computed K w es)))"
proof -
  have run: "\<And>ex. getSelfIntersections K fc ex w =
               Some (fold_break (getSelfIntersections_body K w ex) es ([], []))"
    unfolding getSelfIntersections_def
    by (rule for_of_traversal[where es = es]) (use assms in simp_all)
  show "getSelfIntersections K fc False w = Some (Inr (self_points K w es, computed K w es))"
    by (simp add: run scan_all self_points_def)
  show "getSelfIntersections K fc True w =
           Some (Inr (take 1 (self_points K w es),
                      until_hit (\<lambda>p. kept K w p \<noteq> []) (computed K w es)))"
    by (simp add: run scan_first self_points_def)
qed

text \<open>
  C5. On a face that is empty or a loop with the traversal \<open>es\<close>, \<open>getSelfIntersections\<close>
  returns. Without \<open>exitOnFirst\<close> its points are, pair by pair in the order of the scan,
  the intersection points of every computed pair that are not joints of the pair: a point is
  dropped exactly when it equals, coordinate by coordinate, the start of \<open>e1\<close> and the end
  of its predecessor \<open>e2\<close>, or the end of \<open>e1\<close> and the start of its successor \<open>e2\<close>.
  With \<open>exitOnFirst\<close> the scan stops at the first point it collects and returns that one;
  \<open>isSimple\<close> says whether there is none.
\<close>

theorem joints_discarded_other_points_collected:
  assumes "traversal w fc es"
  shows "(\<exists>calls. getSelfIntersections K fc False w = Some (Inr (self_points K w es, calls))) \<and>
         (\<exists>calls. getSelfIntersections K fc True w =
                     Some (Inr (take 1 (self_points K w es), calls))) \<and>
         isSimple K fc w = Some (Inr (self_points K w es = []))"
proof -
  have "isSimple K fc w = Some (Inr (self_points K w es = []))"
    by (simp add: isSimple_def getSelfIntersections_traversal(2)[OF assms] bind_res_def take1_empty)
  then show ?thesis
    using getSelfIntersections_traversal[OF assms, of K] by simp
qed

theorem joints_discarded_other_points_collected_witness:
  "traversal half_disc 0 [0, 1] \<and>
   map (\<lambda>p. intersect K1 (shape_of half_disc (fst p)) (shape_of half_disc (snd p)))
     (computed K1 half_disc [0, 1]) = [[Point (- 1) 0, Point 1 0], [Point (- 1) 0, Point 1 0]] \<and>
   self_points K1 half_disc [0, 1] = [] \<and>
   (\<exists>calls. getSelfIntersections K1 0 False half_disc = Some (Inr ([], calls))) \<and>
   isSimple K1 0 half_disc = Some (Inr True) \<and>
   traversal bowtie 0 [0, 1, 2, 3] \<and>
   self_points K0 bowtie [0, 1, 2, 3] = [Point (1 / 2) (1 / 2), Point (1 / 2) (1 / 2)] \<and>
   (\<exists>calls. getSelfIntersections K0 0 False bowtie =
              Some (Inr ([Point (1 / 2) (1 / 2), Point (1 / 2) (1 / 2)], calls))) \<and>
   (\<exists>calls. getSelfIntersections K0 0 True bowtie = Some (Inr ([Point (1 / 2) (1 / 2)], calls))) \<and>
   isSimple K0 0 bowtie = Some (Inr False)"
proof -
  have h1: "traversal half_disc 0 [0, 1]" by code_simp
  have i1: "map (\<lambda>p. intersect K1 (shape_of half_disc (fst p)) (shape_of half_disc (snd p)))
     (computed K1 half_disc [0, 1]) = [[Point (- 1) 0, Point 1 0], [Point (- 1) 0, Point 1 0]]"
    by code_simp
  have s1: "self_points K1 half_disc [0, 1] = []" by code_simp
  have h2: "traversal bowtie 0 [0, 1, 2, 3]" by code_simp
  have s2: "self_points K0 bowtie [0, 1, 2, 3] = [Point (1 / 2) (1 / 2), Point (1 / 2) (1 / 2)]"
    by code_simp
  note t1 = joints_discarded_other_points_collected[OF h1, of K1, unfolded s1]
  note t2 = joints_discarded_other_points_collected[OF h2, of K0, unfolded s2]
  show ?thesis using h1 i1 s1 h2 s2 t1 t2 by simp
qed

text \<open>
  C6. On a face that is empty or a loop with the traversal \<open>es\<close>, the calls of \<open>intersect\<close>
  that \<open>getSelfIntersections\<close> makes without \<open>exitOnFirst\<close> are, in the order of the scan,
  exactly the pairs of an edge \<open>e1\<close> of the face and a candidate \<open>e2\<close> from the index that are
  not skipped; a pair is skipped exactly when \<open>e2\<close> is \<open>e1\<close>, or \<open>e2\<close> is the predecessor or
  the successor of \<open>e1\<close> and both shapes are segments. With \<open>exitOnFirst\<close> the calls are the
  same up to and including the first pair that yields a collected point.
\<close>

theorem pairs_skipped_exactly_when_self_or_adjacent_segments:
  assumes "traversal w fc es"
  shows "(\<exists>pts. getSelfIntersections K fc False w =
                  Some (Inr (pts, filter (\<lambda>p. \<not> skipped w (fst p) (snd p)) (candidates K w es)))) \<and>
         (\<exists>pts. getSelfIntersections K fc True w =
                  Some (Inr (pts, until_hit (\<lambda>p. kept K w p \<noteq> [])
                                    (filter (\<lambda>p. \<not> skipped w (fst p) (snd p)) (candidates K w es)))))"
  using getSelfIntersections_traversal[OF assms, of K] by (simp add: computed_def)

theorem pairs_skipped_exactly_when_self_or_adjacent_segments_witness:
  "traversal half_disc 0 [0, 1] \<and>
   candidates K1 half_disc [0, 1] = [(0, 0), (0, 1), (1, 0), (1, 1)] \<and>
   is_Segment (shape_of half_disc 0) \<and> \<not> is_Segment (shape_of half_disc 1) \<and>
   next_of half_disc 0 = Some 1 \<and>
   (\<exists>pts. getSelfIntersections K1 0 False half_disc = Some (Inr (pts, [(0, 1), (1, 0)]))) \<and>
   traversal bowtie 0 [0, 1, 2, 3] \<and>
   candidates K0 bowtie [0, 1, 2, 3] =
     [(0, 0), (0, 1), (0, 2), (0, 3), (1, 0), (1, 1), (1, 2), (2, 0), (2, 1), (2, 2), (2, 3),
      (3, 0), (3, 2), (3, 3)] \<and>
   (\<exists>pts. getSelfIntersections K0 0 False bowtie = Some (Inr (pts, [(0, 2), (2, 0)]))) \<and>
   (\<exists>pts. getSelfIntersections K0 0 True bowtie = Some (Inr (pts, [(0, 2)])))"
proof -
  have h1: "traversal half_disc 0 [0, 1]" by code_simp
  have c1: "candidates K1 half_disc [0, 1] = [(0, 0), (0, 1), (1, 0), (1, 1)]" by code_simp
  have g1: "is_Segment (shape_of half_disc 0)" "\<not> is_Segment (shape_of half_disc 1)"
    "next_of half_disc 0 = Some 1"
    by code_simp+
  have f1: "filter (\<lambda>p. \<not> skipped half_disc (fst p) (snd p)) (candidates K1 half_disc [0, 1])
              = [(0, 1), (1, 0)]"
    by code_simp
  have h2: "traversal bowtie 0 [0, 1, 2, 3]" by code_simp
  have c2: "candidates K0 bowtie [0, 1, 2, 3] =
     [(0, 0), (0, 1), (0, 2), (0, 3), (1, 0), (1, 1), (1, 2), (2, 0), (2, 1), (2, 2), (2, 3),
      (3, 0), (3, 2), (3, 3)]"
    by code_simp
  have f2: "filter (\<lambda>p. \<not> skipped bowtie (fst p) (snd p)) (candidates K0 bowtie [0, 1, 2, 3])
              = [(0, 2), (2, 0)]"
    by code_simp
  have u2: "until_hit (\<lambda>p. kept K0 bowtie p \<noteq> []) [(0, 2), (2, 0)] = [(0, 2)]" by code_simp
  note t1 = pairs_skipped_exactly_when_self_or_adjacent_segments[OF h1, of K1, unfolded f1]
  note t2 = pairs_skipped_exactly_when_self_or_adjacent_segments[OF h2, of K0, unfolded f2 u2]
  show ?thesis using h1 c1 g1 h2 c2 t1 t2 by simp
qed

end
